theory Spec2Isabelle
  imports Complex_Main "HOL-Library.AList"
begin

section \<open>Data model\<close>

text \<open>
  The two source files \<^verbatim>\<open>mcts_vanilla.py\<close> and \<^verbatim>\<open>mcts_modified.py\<close> build a search
  tree of \<^verbatim>\<open>MCTSNode\<close> objects that refer to each other (a node holds its parent, a
  parent holds its children in a dict) and mutate them in place.  The model keeps the
  nodes in an explicit store: a list of node records, the address of a node being its
  index, a fresh node being appended at the end.  References are addresses.

  The counters \<^verbatim>\<open>visits\<close> and \<^verbatim>\<open>wins\<close> start at zero and are only ever incremented
  (\<^verbatim>\<open>node.visits += 1\<close>, \<^verbatim>\<open>node.wins += won\<close> with \<^verbatim>\<open>won\<close> a bool), so they are
  natural numbers.  Python's true division and \<^verbatim>\<open>math.log\<close>, \<^verbatim>\<open>math.sqrt\<close> are
  taken over the reals.

  A dict is an association list in insertion order; \<^verbatim>\<open>d[k] = v\<close> is
  \<^const>\<open>AList.update\<close>, which overwrites in place when the key is present and appends
  otherwise, as Python's dict does.
\<close>

datatype error =
    ZeroDivisionError
  | ValueError
  | IndexError
  | KeyError
  | AttributeError
  | AssertionError

record 'a MCTSNode =
  parent :: "nat option"
  parent_action :: "'a option"
  child_nodes :: "('a \<times> nat) list"
  untried_actions :: "'a list"
  wins :: nat
  visits :: nat

type_synonym 'a store = "'a MCTSNode list"

text \<open>
  Modelled from the spec: the constructor of \<^verbatim>\<open>MCTSNode\<close> (module \<^verbatim>\<open>mcts_node\<close>, not
  among the sources).  The spec's data model: the node keeps its parent and parent
  action, has no children yet, its untried actions are the legal-action list passed in,
  and both counters are zero at creation.
\<close>

definition new_MCTSNode :: "nat option \<Rightarrow> 'a option \<Rightarrow> 'a list \<Rightarrow> 'a MCTSNode" where
  "new_MCTSNode p pa action_list =
     \<lparr> parent = p, parent_action = pa, child_nodes = [],
       untried_actions = action_list, wins = 0, visits = 0 \<rparr>"

text \<open>
  The game model \<^verbatim>\<open>Board\<close> (module \<^verbatim>\<open>p2_t3\<close>) is external; the engine uses it only
  through the methods below, so it is a parameter: a record of functions.
  \<^verbatim>\<open>points_values\<close> returns \<^verbatim>\<open>None\<close> on a state that has not ended and a dict from
  identity to score otherwise; \<^verbatim>\<open>owned_boxes\<close> returns a dict from box to owner.
\<close>

record ('s, 'a, 'b) Board =
  current_player :: "'s \<Rightarrow> nat"
  legal_actions :: "'s \<Rightarrow> 'a list"
  next_state :: "'s \<Rightarrow> 'a \<Rightarrow> 's"
  is_ended :: "'s \<Rightarrow> bool"
  points_values :: "'s \<Rightarrow> (nat \<times> int) list option"
  owned_boxes :: "'s \<Rightarrow> ('b \<times> nat) list"

definition num_nodes :: nat where
  "num_nodes = 1000"

definition explore_faction :: real where
  "explore_faction = 2"

section \<open>Action selection at the root\<close>

text \<open>
  The loop of \<^verbatim>\<open>get_best_action\<close> over \<^verbatim>\<open>root_node.child_nodes.keys()\<close>, carrying
  \<^verbatim>\<open>(val, visit, chosen_move)\<close>.  The quotient \<^verbatim>\<open>wins / visits\<close> is evaluated first,
  for every child, and raises \<^verbatim>\<open>ZeroDivisionError\<close> on a child never visited.
\<close>

fun best_scan ::
  "'a store \<Rightarrow> ('a \<times> nat) list \<Rightarrow> real \<times> int \<times> 'a option \<Rightarrow> error + (real \<times> int \<times> 'a option)"
where
  "best_scan h [] st = Inr st"
| "best_scan h ((instances, c) # rest) (val, visit, chosen_move) =
     (if visits (h ! c) = 0 then Inl ZeroDivisionError
      else if real (wins (h ! c)) / real (visits (h ! c)) > val then
        (if int (visits (h ! c)) > visit then
           best_scan h rest
             (real (wins (h ! c)) / real (visits (h ! c)), int (visits (h ! c)), Some instances)
         else best_scan h rest (val, visit, chosen_move))
      else best_scan h rest (val, visit, chosen_move))"

definition get_best_action :: "'a store \<Rightarrow> nat \<Rightarrow> error + 'a option" where
  "get_best_action h root_node =
     (case best_scan h (child_nodes (h ! root_node)) (- 1000000000, - 1, None) of
        Inl e \<Rightarrow> Inl e
      | Inr (val, visit, chosen_move) \<Rightarrow> Inr chosen_move)"

section \<open>Selection\<close>

text \<open>
  \<^verbatim>\<open>ucb(node, is_opponent)\<close>.  \<^verbatim>\<open>math.log\<close> raises \<^verbatim>\<open>ValueError\<close> at 0, the
  quotient \<^verbatim>\<open>node.wins / node.visits\<close> raises \<^verbatim>\<open>ZeroDivisionError\<close> when the node was
  never visited, and \<^verbatim>\<open>math.sqrt\<close> raises \<^verbatim>\<open>ValueError\<close> on a negative argument; the
  branches are in the order in which Python evaluates them.
\<close>

definition ucb :: "'a store \<Rightarrow> nat \<Rightarrow> bool \<Rightarrow> error + real" where
  "ucb h node is_opponent =
     (case parent (h ! node) of
        None \<Rightarrow> Inr (- 1)
      | Some p \<Rightarrow>
          if visits (h ! p) = 0 then Inl ValueError
          else
            let natural_log = ln (real (visits (h ! p))) / ln (2.71828 :: real) in
            if visits (h ! node) = 0 then Inl ZeroDivisionError
            else
              let exploit =
                    (if is_opponent then 1 - real (wins (h ! node)) / real (visits (h ! node))
                     else real (wins (h ! node)) / real (visits (h ! node)))
              in if natural_log / real (visits (h ! node)) < 0 then Inl ValueError
                 else Inr (exploit
                           + explore_faction * sqrt (natural_log / real (visits (h ! node)))))"

text \<open>
  The inner \<^verbatim>\<open>for\<close> loop of \<^verbatim>\<open>traverse_nodes\<close> over the children of \<^verbatim>\<open>starter\<close>,
  carrying \<^verbatim>\<open>(uct_val, chosen_node, chosen_move)\<close>.
\<close>

fun uct_scan ::
  "'a store \<Rightarrow> bool \<Rightarrow> ('a \<times> nat) list \<Rightarrow> real \<times> nat option \<times> 'a option
     \<Rightarrow> error + (real \<times> nat option \<times> 'a option)"
where
  "uct_scan h opp [] st = Inr st"
| "uct_scan h opp ((instances, c) # rest) (uct_val, chosen_node, chosen_move) =
     (case ucb h c opp of
        Inl e \<Rightarrow> Inl e
      | Inr u \<Rightarrow>
          if u > uct_val then uct_scan h opp rest (u, Some c, Some instances)
          else uct_scan h opp rest (uct_val, chosen_node, chosen_move))"

text \<open>
  The \<^verbatim>\<open>while\<close> loop of \<^verbatim>\<open>traverse_nodes\<close>.  It may run forever on a store whose
  child references form a cycle, so it is a partial function: \<open>None\<close> is "does not
  return".  When no child was chosen, \<^verbatim>\<open>starter\<close> becomes \<^verbatim>\<open>None\<close> and the next test of
  the loop condition raises \<^verbatim>\<open>AttributeError\<close> (unless the game model already raised on
  the action \<^verbatim>\<open>None\<close>); either way an exception leaves the function.
\<close>

partial_function (option) traverse_loop ::
  "'a store \<Rightarrow> ('s, 'a, 'b) Board \<Rightarrow> nat \<Rightarrow> nat \<Rightarrow> 's \<Rightarrow> nat \<Rightarrow> (error + nat \<times> 's) option"
where
  "traverse_loop h board bot_identity starter current_game current_identity =
     (if untried_actions (h ! starter) = [] \<and> \<not> is_ended board current_game then
        (case uct_scan h (current_identity \<noteq> bot_identity) (child_nodes (h ! starter))
                (- 1000000000, None, None) of
           Inl e \<Rightarrow> Some (Inl e)
         | Inr (uct_val, chosen_node, chosen_move) \<Rightarrow>
             (case chosen_node of
                None \<Rightarrow> Some (Inl AttributeError)
              | Some n \<Rightarrow>
                  (case chosen_move of
                     None \<Rightarrow> Some (Inl AttributeError)
                   | Some m \<Rightarrow>
                       traverse_loop h board bot_identity n (next_state board current_game m)
                         (if current_identity = 2 then 1 else 2))))
      else Some (Inr (starter, current_game)))"

definition traverse_nodes ::
  "'a store \<Rightarrow> nat \<Rightarrow> ('s, 'a, 'b) Board \<Rightarrow> 's \<Rightarrow> nat \<Rightarrow> (error + nat \<times> 's) option"
where
  "traverse_nodes h node board state bot_identity =
     traverse_loop h board bot_identity node state bot_identity"

section \<open>Expansion\<close>

text \<open>
  \<^verbatim>\<open>expand_leaf(node, board, state)\<close>: \<^verbatim>\<open>node.untried_actions[0]\<close> raises
  \<^verbatim>\<open>IndexError\<close> on an empty list.  The new node is allocated at the end of the store.
\<close>

definition expand_leaf ::
  "'a store \<Rightarrow> nat \<Rightarrow> ('s, 'a, 'b) Board \<Rightarrow> 's \<Rightarrow> error + ('a store \<times> nat \<times> 's)"
where
  "expand_leaf h node board state =
     (if is_ended board state then Inr (h, node, state)
      else
        (case untried_actions (h ! node) of
           [] \<Rightarrow> Inl IndexError
         | move_chosen # rest \<Rightarrow>
             let h1 = h[node := (h ! node)\<lparr>untried_actions := rest\<rparr>];
                 current_game = next_state board state move_chosen;
                 new_node = length h1;
                 h2 = h1 @ [new_MCTSNode (Some node) (Some move_chosen)
                              (legal_actions board current_game)];
                 h3 = h2[node := (h2 ! node)
                       \<lparr>child_nodes := AList.update move_chosen new_node (child_nodes (h2 ! node))\<rparr>]
             in Inr (h3, new_node, current_game)))"

section \<open>Simulation\<close>

text \<open>
  \<^verbatim>\<open>random.choice\<close> draws from the interpreter's generator.  The generator is a
  parameter: a state of any type \<open>'r\<close> and a function \<open>rand\<close> that yields a number and
  the next state; the drawn index is that number modulo the length.  \<^verbatim>\<open>choice\<close> raises
  \<^verbatim>\<open>IndexError\<close> on an empty sequence.
\<close>

definition choice :: "('r \<Rightarrow> nat \<times> 'r) \<Rightarrow> 'r \<Rightarrow> 'x list \<Rightarrow> error + ('x \<times> 'r)" where
  "choice rand r xs =
     (if xs = [] then Inl IndexError
      else Inr (xs ! (fst (rand r) mod length xs), snd (rand r)))"

text \<open>
  \<^verbatim>\<open>rollout\<close> of \<^verbatim>\<open>mcts_vanilla.py\<close>: the \<^verbatim>\<open>while\<close> loop on \<^verbatim>\<open>current_game\<close> (the
  counter \<^verbatim>\<open>starter\<close> is only incremented, never read).  Nothing bounds the loop.
\<close>

partial_function (option) rollout_loop ::
  "('r \<Rightarrow> nat \<times> 'r) \<Rightarrow> ('s, 'a, 'b) Board \<Rightarrow> 's \<Rightarrow> 'r \<Rightarrow> (error + 's \<times> 'r) option"
where
  "rollout_loop rand board current_game r =
     (if \<not> is_ended board current_game then
        (case choice rand r (legal_actions board current_game) of
           Inl e \<Rightarrow> Some (Inl e)
         | Inr (move_chosen, r') \<Rightarrow>
             rollout_loop rand board (next_state board current_game move_chosen) r')
      else Some (Inr (current_game, r)))"

definition rollout ::
  "('r \<Rightarrow> nat \<times> 'r) \<Rightarrow> ('s, 'a, 'b) Board \<Rightarrow> 's \<Rightarrow> 'r \<Rightarrow> (error + 's \<times> 'r) option"
where
  "rollout rand board state r = rollout_loop rand board state r"

text \<open>
  \<^verbatim>\<open>heuristic\<close> of \<^verbatim>\<open>mcts_modified.py\<close>.  The inner loop runs over the boxes of
  \<^verbatim>\<open>avail_prev\<close>; \<^verbatim>\<open>avail_next[mini]\<close> is read only when \<^verbatim>\<open>bot_identity\<close> is 1 or 2
  (the conjunctions short-circuit) and raises \<^verbatim>\<open>KeyError\<close> on a box it lacks.
\<close>

fun box_scan :: "nat \<Rightarrow> ('b \<times> nat) list \<Rightarrow> ('b \<times> nat) list \<Rightarrow> error + bool" where
  "box_scan bot_identity [] avail_next = Inr False"
| "box_scan bot_identity ((mini, prev) # rest) avail_next =
     (if bot_identity = 1 \<or> bot_identity = 2 then
        (case map_of avail_next mini of
           None \<Rightarrow> Inl KeyError
         | Some nxt \<Rightarrow>
             if prev \<noteq> nxt \<and> nxt = bot_identity then Inr True
             else box_scan bot_identity rest avail_next)
      else box_scan bot_identity rest avail_next)"

fun heuristic :: "('s, 'a, 'b) Board \<Rightarrow> 's \<Rightarrow> 'a list \<Rightarrow> nat \<Rightarrow> error + 'a option" where
  "heuristic board state [] bot_identity = Inr None"
| "heuristic board state (instances # moves) bot_identity =
     (case box_scan bot_identity (owned_boxes board state)
             (owned_boxes board (next_state board state instances)) of
        Inl e \<Rightarrow> Inl e
      | Inr True \<Rightarrow> Inr (Some instances)
      | Inr False \<Rightarrow> heuristic board state moves bot_identity)"

text \<open>
  \<^verbatim>\<open>rollout\<close> of \<^verbatim>\<open>mcts_modified.py\<close>.  The loop passes \<^verbatim>\<open>state\<close>, the argument of
  \<^verbatim>\<open>rollout\<close>, to \<^verbatim>\<open>heuristic\<close>, together with the legal actions of \<^verbatim>\<open>current_game\<close>.
\<close>

partial_function (option) rollout_modified_loop ::
  "('r \<Rightarrow> nat \<times> 'r) \<Rightarrow> ('s, 'a, 'b) Board \<Rightarrow> 's \<Rightarrow> nat \<Rightarrow> 's \<Rightarrow> 'r \<Rightarrow> (error + 's \<times> 'r) option"
where
  "rollout_modified_loop rand board state bot_identity current_game r =
     (if \<not> is_ended board current_game then
        (case heuristic board state (legal_actions board current_game) bot_identity of
           Inl e \<Rightarrow> Some (Inl e)
         | Inr (Some move_chosen) \<Rightarrow>
             rollout_modified_loop rand board state bot_identity
               (next_state board current_game move_chosen) r
         | Inr None \<Rightarrow>
             (case choice rand r (legal_actions board current_game) of
                Inl e \<Rightarrow> Some (Inl e)
              | Inr (move_chosen, r') \<Rightarrow>
                  rollout_modified_loop rand board state bot_identity
                    (next_state board current_game move_chosen) r'))
      else Some (Inr (current_game, r)))"

definition rollout_modified ::
  "('r \<Rightarrow> nat \<times> 'r) \<Rightarrow> ('s, 'a, 'b) Board \<Rightarrow> 's \<Rightarrow> nat \<Rightarrow> 'r \<Rightarrow> (error + 's \<times> 'r) option"
where
  "rollout_modified rand board state bot_identity r =
     rollout_modified_loop rand board state bot_identity state r"

section \<open>Backpropagation\<close>

text \<open>
  \<^verbatim>\<open>backpropagate(node, won)\<close> recurses along the parent references; on a store where
  they form a cycle it would not return, so it is a partial function.  \<^verbatim>\<open>won\<close> is a
  bool, added to \<^verbatim>\<open>wins\<close> as 0 or 1.  The interpreter's bound on the recursion depth is
  not modelled.
\<close>

partial_function (option) backpropagate :: "'a store \<Rightarrow> nat \<Rightarrow> bool \<Rightarrow> 'a store option" where
  "backpropagate h node won =
     (let h1 = h[node := (h ! node)\<lparr>visits := visits (h ! node) + 1\<rparr>] in
      case parent (h1 ! node) of
        None \<Rightarrow> Some h1
      | Some p \<Rightarrow>
          backpropagate
            (h1[node := (h1 ! node)\<lparr>wins := wins (h1 ! node) + (if won then 1 else 0)\<rparr>]) p won)"

section \<open>The driver\<close>

definition is_win :: "('s, 'a, 'b) Board \<Rightarrow> 's \<Rightarrow> nat \<Rightarrow> error + bool" where
  "is_win board state identity_of_bot =
     (case points_values board state of
        None \<Rightarrow> Inl AssertionError
      | Some outcome \<Rightarrow>
          (case map_of outcome identity_of_bot of
             None \<Rightarrow> Inl KeyError
           | Some v \<Rightarrow> Inr (v = 1)))"

text \<open>
  One pass of the body of the \<^verbatim>\<open>for\<close> loop of \<^verbatim>\<open>think\<close>.  The two source files differ
  only in the rollout they call, which is the parameter \<open>ro\<close>.
\<close>

definition think_iteration ::
  "('s \<Rightarrow> 'r \<Rightarrow> (error + 's \<times> 'r) option) \<Rightarrow> ('s, 'a, 'b) Board \<Rightarrow> 's \<Rightarrow> nat \<Rightarrow> nat
     \<Rightarrow> 'a store \<Rightarrow> 'r \<Rightarrow> (error + 'a store \<times> 'r) option"
where
  "think_iteration ro board current_state bot_identity root_node h r =
     (case traverse_nodes h root_node board current_state bot_identity of
        None \<Rightarrow> None
      | Some (Inl e) \<Rightarrow> Some (Inl e)
      | Some (Inr (node, state)) \<Rightarrow>
          (case expand_leaf h node board state of
             Inl e \<Rightarrow> Some (Inl e)
           | Inr (h1, node1, state1) \<Rightarrow>
               (case ro state1 r of
                  None \<Rightarrow> None
                | Some (Inl e) \<Rightarrow> Some (Inl e)
                | Some (Inr (state2, r1)) \<Rightarrow>
                    (case is_win board state2 bot_identity of
                       Inl e \<Rightarrow> Some (Inl e)
                     | Inr won \<Rightarrow>
                         (case backpropagate h1 node1 won of
                            None \<Rightarrow> None
                          | Some h2 \<Rightarrow> Some (Inr (h2, r1)))))))"

text \<open>\<^verbatim>\<open>for _ in range(n)\<close>: the body \<open>n\<close> times, an exception ending the loop.\<close>

fun think_loop ::
  "('s \<Rightarrow> 'r \<Rightarrow> (error + 's \<times> 'r) option) \<Rightarrow> ('s, 'a, 'b) Board \<Rightarrow> 's \<Rightarrow> nat \<Rightarrow> nat
     \<Rightarrow> nat \<Rightarrow> 'a store \<Rightarrow> 'r \<Rightarrow> (error + 'a store \<times> 'r) option"
where
  "think_loop ro board current_state bot_identity root_node 0 h r = Some (Inr (h, r))"
| "think_loop ro board current_state bot_identity root_node (Suc n) h r =
     (case think_iteration ro board current_state bot_identity root_node h r of
        None \<Rightarrow> None
      | Some (Inl e) \<Rightarrow> Some (Inl e)
      | Some (Inr (h', r')) \<Rightarrow>
          think_loop ro board current_state bot_identity root_node n h' r')"

text \<open>
  \<^verbatim>\<open>think\<close>: the root is the first node allocated, at address 0 of a fresh store.  The
  result carries the final store along with the chosen action.
\<close>

definition think_with ::
  "('s \<Rightarrow> 'r \<Rightarrow> (error + 's \<times> 'r) option) \<Rightarrow> ('s, 'a, 'b) Board \<Rightarrow> 's \<Rightarrow> 'r
     \<Rightarrow> (error + 'a option \<times> 'a store) option"
where
  "think_with ro board current_state r =
     (let bot_identity = current_player board current_state;
          root_node = 0;
          h0 = [new_MCTSNode None None (legal_actions board current_state)]
      in case think_loop ro board current_state bot_identity root_node num_nodes h0 r of
           None \<Rightarrow> None
         | Some (Inl e) \<Rightarrow> Some (Inl e)
         | Some (Inr (h, r')) \<Rightarrow>
             (case get_best_action h root_node of
                Inl e \<Rightarrow> Some (Inl e)
              | Inr best_action \<Rightarrow> Some (Inr (best_action, h))))"

definition think ::
  "('r \<Rightarrow> nat \<times> 'r) \<Rightarrow> ('s, 'a, 'b) Board \<Rightarrow> 's \<Rightarrow> 'r \<Rightarrow> (error + 'a option \<times> 'a store) option"
where
  "think rand board current_state r =
     think_with (rollout rand board) board current_state r"

definition think_modified ::
  "('r \<Rightarrow> nat \<times> 'r) \<Rightarrow> ('s, 'a, 'b) Board \<Rightarrow> 's \<Rightarrow> 'r \<Rightarrow> (error + 'a option \<times> 'a store) option"
where
  "think_modified rand board current_state r =
     think_with (\<lambda>state. rollout_modified rand board state (current_player board current_state))
       board current_state r"

section \<open>Fixtures\<close>

text \<open>
  A root with two children in scan order: \<open>A\<close> with 3 wins in 4 visits, then \<open>B\<close> with
  5 wins in 10 visits.
\<close>

definition fixture_AB :: "string store" where
  "fixture_AB =
     [new_MCTSNode None None [] \<lparr>child_nodes := [(''A'', 1), (''B'', 2)], visits := 14\<rparr>,
      new_MCTSNode (Some 0) (Some ''A'') [] \<lparr>wins := 3, visits := 4\<rparr>,
      new_MCTSNode (Some 0) (Some ''B'') [] \<lparr>wins := 5, visits := 10\<rparr>]"

text \<open>A root without children, and a root with one visited child.\<close>

definition fixture_bare :: "string store" where
  "fixture_bare = [new_MCTSNode None None [''A'', ''B'']]"

definition fixture_one :: "string store" where
  "fixture_one =
     [new_MCTSNode None None [''B''] \<lparr>child_nodes := [(''A'', 1)], visits := 1\<rparr>,
      new_MCTSNode (Some 0) (Some ''A'') [] \<lparr>wins := 0, visits := 1\<rparr>]"

text \<open>
  A small game model: the states are the nodes of a binary tree of depth two, numbered
  from 0 (state \<open>s\<close> has the successors \<open>2 s + 1\<close> and \<open>2 s + 2\<close>), the leaves 3 to 6
  are terminal, player 1 wins in state 4 and owns the box \<open>X\<close> there, and all legal-action
  lists are duplicate-free.  The generator \<open>always_first\<close> always yields 0.
\<close>

definition toy_board :: "(nat, nat, string) Board" where
  "toy_board =
     \<lparr> current_player = (\<lambda>s. if s = 1 \<or> s = 2 then 2 else 1),
       legal_actions = (\<lambda>s. if 3 \<le> s then [] else [0, 1]),
       next_state = (\<lambda>s a. 2 * s + 1 + a),
       is_ended = (\<lambda>s. 3 \<le> s),
       points_values =
         (\<lambda>s. if 3 \<le> s then Some [(1, if s = 4 then 1 else 0), (2, if s = 4 then 0 else 1)]
              else None),
       owned_boxes = (\<lambda>s. [(''X'', if s = 4 then 1 else 0)]) \<rparr>"

definition always_first :: "nat \<Rightarrow> nat \<times> nat" where
  "always_first r = (0, Suc r)"

definition toy_root :: "nat store" where
  "toy_root = [new_MCTSNode None None (legal_actions toy_board 0)]"

text \<open>A root visited 4 times with one child that won its single visit.\<close>

definition fixture_ucb :: "string store" where
  "fixture_ucb =
     [new_MCTSNode None None [] \<lparr>child_nodes := [(''A'', 1)], visits := 4\<rparr>,
      new_MCTSNode (Some 0) (Some ''A'') [] \<lparr>wins := 1, visits := 1\<rparr>]"

text \<open>
  The stores of the search on the toy game from state 0 for identity 1 after one, two
  and three iterations, the playouts always drawing the first action (they end in the
  lost states 3, 5 and 3).
\<close>

definition toy_store_1 :: "nat store" where
  "toy_store_1 =
     [\<lparr>parent = None, parent_action = None, child_nodes = [(0, 1)],
       untried_actions = [1], wins = 0, visits = 1\<rparr>,
      \<lparr>parent = Some 0, parent_action = Some 0, child_nodes = [],
       untried_actions = [0, 1], wins = 0, visits = 1\<rparr>]"

definition toy_store_2 :: "nat store" where
  "toy_store_2 =
     [\<lparr>parent = None, parent_action = None, child_nodes = [(0, 1), (1, 2)],
       untried_actions = [], wins = 0, visits = 2\<rparr>,
      \<lparr>parent = Some 0, parent_action = Some 0, child_nodes = [],
       untried_actions = [0, 1], wins = 0, visits = 1\<rparr>,
      \<lparr>parent = Some 0, parent_action = Some 1, child_nodes = [],
       untried_actions = [0, 1], wins = 0, visits = 1\<rparr>]"

definition toy_store_3 :: "nat store" where
  "toy_store_3 =
     [\<lparr>parent = None, parent_action = None, child_nodes = [(0, 1), (1, 2)],
       untried_actions = [], wins = 0, visits = 3\<rparr>,
      \<lparr>parent = Some 0, parent_action = Some 0, child_nodes = [(0, 3)],
       untried_actions = [1], wins = 0, visits = 2\<rparr>,
      \<lparr>parent = Some 0, parent_action = Some 1, child_nodes = [],
       untried_actions = [0, 1], wins = 0, visits = 1\<rparr>,
      \<lparr>parent = Some 1, parent_action = Some 0, child_nodes = [],
       untried_actions = [], wins = 0, visits = 1\<rparr>]"

text \<open>
  A game model whose legal-action list repeats an action: state 0 offers the action 0
  twice, and every other state has ended, won by player 1.  The stores are those of the
  search from state 0 after one and two iterations.
\<close>

definition dup_board :: "(nat, nat, string) Board" where
  "dup_board =
     \<lparr> current_player = (\<lambda>s. 1),
       legal_actions = (\<lambda>s. if s = 0 then [0, 0] else []),
       next_state = (\<lambda>s a. 1),
       is_ended = (\<lambda>s. s \<noteq> 0),
       points_values = (\<lambda>s. if s = 0 then None else Some [(1, 1), (2, 0)]),
       owned_boxes = (\<lambda>s. []) \<rparr>"

definition dup_store_1 :: "nat store" where
  "dup_store_1 =
     [\<lparr>parent = None, parent_action = None, child_nodes = [(0, 1)],
       untried_actions = [0], wins = 0, visits = 1\<rparr>,
      \<lparr>parent = Some 0, parent_action = Some 0, child_nodes = [],
       untried_actions = [], wins = 1, visits = 1\<rparr>]"

definition dup_store_2 :: "nat store" where
  "dup_store_2 =
     [\<lparr>parent = None, parent_action = None, child_nodes = [(0, 2)],
       untried_actions = [], wins = 0, visits = 2\<rparr>,
      \<lparr>parent = Some 0, parent_action = Some 0, child_nodes = [],
       untried_actions = [], wins = 1, visits = 1\<rparr>,
      \<lparr>parent = Some 0, parent_action = Some 0, child_nodes = [],
       untried_actions = [], wins = 1, visits = 1\<rparr>]"

section \<open>The shape of the store\<close>

text \<open>
  \<open>on_path h n i\<close>: node \<open>i\<close> lies on the path of parent references that starts at
  node \<open>n\<close> (\<open>n\<close> itself included).
\<close>

inductive on_path :: "'a store \<Rightarrow> nat \<Rightarrow> nat \<Rightarrow> bool" for h :: "'a store" where
  self: "on_path h n n"
| up: "parent (h ! n) = Some p \<Longrightarrow> on_path h p i \<Longrightarrow> on_path h n i"

text \<open>
  The stores that \<^verbatim>\<open>think\<close> builds: the root is at address 0 and is the only node
  without a parent, and a node is allocated after its parent.
\<close>

definition tree_shape :: "'a store \<Rightarrow> bool" where
  "tree_shape h \<longleftrightarrow>
     h \<noteq> [] \<and> parent (h ! 0) = None
     \<and> (\<forall>i<length h. 0 < i \<longrightarrow> (\<exists>p<i. parent (h ! i) = Some p))"

text \<open>Every entry of a node's \<^verbatim>\<open>child_nodes\<close> refers to a node whose parent it is.\<close>

definition children_ok :: "'a store \<Rightarrow> bool" where
  "children_ok h \<longleftrightarrow>
     (\<forall>i<length h. \<forall>(a, c) \<in> set (child_nodes (h ! i)). c < length h \<and> parent (h ! c) = Some i)"

definition same_links :: "'a store \<Rightarrow> 'a store \<Rightarrow> bool" where
  "same_links h h' \<longleftrightarrow> length h' = length h \<and> (\<forall>i<length h. parent (h' ! i) = parent (h ! i))"

text \<open>
  Node \<open>i\<close> after one backpropagation from node \<open>n\<close>: one more visit when it lies on the
  path from \<open>n\<close> to the root, and one more win when moreover it has a parent and the
  playout was won.
\<close>

definition bumped :: "'a store \<Rightarrow> nat \<Rightarrow> bool \<Rightarrow> nat \<Rightarrow> 'a MCTSNode" where
  "bumped h n won i =
     (h ! i)\<lparr> wins := wins (h ! i) + (if on_path h n i \<and> parent (h ! i) \<noteq> None \<and> won then 1 else 0),
              visits := visits (h ! i) + (if on_path h n i then 1 else 0) \<rparr>"

text \<open>
  The store after \<^verbatim>\<open>expand_leaf\<close> has expanded \<open>node\<close> by the action \<open>a\<close>, the rest of
  its untried actions being \<open>rest\<close> and \<open>action_list\<close> the legal actions of the new state.
\<close>

definition expanded :: "'a store \<Rightarrow> nat \<Rightarrow> 'a \<Rightarrow> 'a list \<Rightarrow> 'a list \<Rightarrow> 'a store" where
  "expanded h node a rest action_list =
     h[node := (h ! node)\<lparr>untried_actions := rest,
                          child_nodes := AList.update a (length h) (child_nodes (h ! node))\<rparr>]
     @ [new_MCTSNode (Some node) (Some a) action_list]"

text \<open>
  What the selection and expansion of one iteration make of the store \<open>h\<close>: either the
  same store with one of its nodes to backpropagate from, or the store with one node
  expanded and the new node to backpropagate from.
\<close>

definition grown :: "('s, 'a, 'b) Board \<Rightarrow> 'a store \<Rightarrow> 'a store \<Rightarrow> nat \<Rightarrow> bool" where
  "grown board h h1 node1 \<longleftrightarrow>
     (h1 = h \<and> node1 < length h)
     \<or> (\<exists>node a rest s. node < length h \<and> untried_actions (h ! node) = a # rest
           \<and> h1 = expanded h node a rest (legal_actions board s) \<and> node1 = length h)"

text \<open>The counters of the nodes: every node has at most as many wins as visits.\<close>

definition wins_inv :: "'a store \<Rightarrow> bool" where
  "wins_inv h \<longleftrightarrow> (\<forall>i<length h. wins (h ! i) \<le> visits (h ! i))"

text \<open>
  Every node but the root has been visited, and so has every node that has a child.
\<close>

definition visited_inv :: "'a store \<Rightarrow> bool" where
  "visited_inv h \<longleftrightarrow>
     (\<forall>i<length h. 0 < i \<longrightarrow> 1 \<le> visits (h ! i))
     \<and> (\<forall>i<length h. child_nodes (h ! i) \<noteq> [] \<longrightarrow> 1 \<le> visits (h ! i))"

text \<open>
  The untried actions and the keys of the children of a node partition the action list
  \<open>L\<close>: no action twice or in both, the same actions as \<open>L\<close>, and as many as \<open>L\<close> has.
\<close>

definition partition_ok :: "'a list \<Rightarrow> 'a MCTSNode \<Rightarrow> bool" where
  "partition_ok L nd \<longleftrightarrow>
     distinct (untried_actions nd @ map fst (child_nodes nd))
     \<and> set (untried_actions nd) \<union> set (map fst (child_nodes nd)) = set L
     \<and> length (untried_actions nd) + length (child_nodes nd) = length L"

text \<open>
  Every node of the store partitions the legal-action list of some state of the game.
\<close>

definition partitioned :: "('s, 'a, 'b) Board \<Rightarrow> 'a store \<Rightarrow> bool" where
  "partitioned board h \<longleftrightarrow> (\<forall>i<length h. \<exists>s. partition_ok (legal_actions board s) (h ! i))"

section \<open>The formulas of the specification\<close>

text \<open>
  The score as the specification words it, for a node with parent visits \<open>Np\<close>, own
  visits \<open>N\<close> and wins \<open>W\<close>: exploitation plus the exploration factor times
  \<open>sqrt (ln Np / N)\<close>, with the natural logarithm.
\<close>

definition ucb_spec :: "nat \<Rightarrow> nat \<Rightarrow> nat \<Rightarrow> bool \<Rightarrow> real" where
  "ucb_spec Np N W isOpponentNode =
     (let exploitation = (if isOpponentNode then 1 - real W / real N else real W / real N);
          exploration = explore_faction * sqrt (ln (real Np) / real N)
      in exploitation + exploration)"

text \<open>
  The heuristic rollout as the specification words it: at every step the heuristic is
  given the current state of that step.
\<close>

partial_function (option) rollout_spec_loop ::
  "('r \<Rightarrow> nat \<times> 'r) \<Rightarrow> ('s, 'a, 'b) Board \<Rightarrow> nat \<Rightarrow> 's \<Rightarrow> 'r \<Rightarrow> (error + 's \<times> 'r) option"
where
  "rollout_spec_loop rand board bot_identity current_game r =
     (if \<not> is_ended board current_game then
        (case heuristic board current_game (legal_actions board current_game) bot_identity of
           Inl e \<Rightarrow> Some (Inl e)
         | Inr (Some move_chosen) \<Rightarrow>
             rollout_spec_loop rand board bot_identity
               (next_state board current_game move_chosen) r
         | Inr None \<Rightarrow>
             (case choice rand r (legal_actions board current_game) of
                Inl e \<Rightarrow> Some (Inl e)
              | Inr (move_chosen, r') \<Rightarrow>
                  rollout_spec_loop rand board bot_identity
                    (next_state board current_game move_chosen) r'))
      else Some (Inr (current_game, r)))"

section \<open>Properties of the action selection\<close>

lemma best_scan_snoc:
  "best_scan h (cs @ [(a, c)]) st =
     (case best_scan h cs st of
        Inl e \<Rightarrow> Inl e
      | Inr (val, visit, chosen) \<Rightarrow>
          if visits (h ! c) = 0 then Inl ZeroDivisionError
          else if real (wins (h ! c)) / real (visits (h ! c)) > val \<and> int (visits (h ! c)) > visit
          then Inr (real (wins (h ! c)) / real (visits (h ! c)), int (visits (h ! c)), Some a)
          else Inr (val, visit, chosen))"
proof (induction cs arbitrary: st)
  case Nil
  show ?case by (cases st) simp
next
  case (Cons x cs)
  obtain b d where x: "x = (b, d)" by (cases x)
  obtain val visit chosen where st: "st = (val, visit, chosen)" by (cases st)
  show ?case unfolding x st by (simp add: Cons.IH)
qed

lemma best_scan_keeps_some:
  "\<forall>(a, c) \<in> set cs. 1 \<le> visits (h ! c) \<Longrightarrow>
   \<exists>val' visit' m. best_scan h cs (val, visit, Some x) = Inr (val', visit', Some m)"
proof (induction cs arbitrary: val visit x)
  case Nil
  then show ?case by simp
next
  case (Cons p cs)
  obtain b d where p: "p = (b, d)" by (cases p)
  from Cons.prems have rest: "\<forall>(a, c) \<in> set cs. 1 \<le> visits (h ! c)" by simp
  from Cons.prems p have d: "visits (h ! d) \<noteq> 0" by auto
  show ?case unfolding p using d Cons.IH[OF rest] by simp
qed

text \<open>
  Claim C1.  \<^verbatim>\<open>get_best_action\<close> is the scan of the root's children, in order, from the
  sentinels \<open>(-1000000000, -1, None)\<close>.  Scanning one more candidate \<open>(a, c)\<close> after the
  candidates \<open>cs\<close> replaces the best so far exactly when the candidate's win rate is
  strictly greater than the best rate so far and its visit count is strictly greater than
  the best visit count so far; then the candidate's rate, visits and action become the
  best so far, and otherwise the best so far is left as it was (a candidate never visited
  raises \<^verbatim>\<open>ZeroDivisionError\<close>).  So the action returned is the last candidate accepted
  under that rule.  With \<open>A\<close> (3 wins, 4 visits) scanned before \<open>B\<close> (5 wins, 10 visits)
  the action returned is \<open>A\<close>, though \<open>B\<close> has more visits.
\<close>

theorem get_best_action_both_strictly_greater:
  "best_scan h (cs @ [(a, c)]) st =
     (case best_scan h cs st of
        Inl e \<Rightarrow> Inl e
      | Inr (val, visit, chosen) \<Rightarrow>
          if visits (h ! c) = 0 then Inl ZeroDivisionError
          else if real (wins (h ! c)) / real (visits (h ! c)) > val \<and> int (visits (h ! c)) > visit
          then Inr (real (wins (h ! c)) / real (visits (h ! c)), int (visits (h ! c)), Some a)
          else Inr (val, visit, chosen))
   \<and> get_best_action h root_node =
       (case best_scan h (child_nodes (h ! root_node)) (- 1000000000, - 1, None) of
          Inl e \<Rightarrow> Inl e
        | Inr (val, visit, chosen) \<Rightarrow> Inr chosen)
   \<and> child_nodes (fixture_AB ! 0) = [(''A'', 1), (''B'', 2)]
   \<and> wins (fixture_AB ! 1) = 3 \<and> visits (fixture_AB ! 1) = 4
   \<and> wins (fixture_AB ! 2) = 5 \<and> visits (fixture_AB ! 2) = 10
   \<and> get_best_action fixture_AB 0 = Inr (Some ''A'')"
proof -
  have "get_best_action fixture_AB 0 = Inr (Some ''A'')"
    by (simp add: get_best_action_def fixture_AB_def new_MCTSNode_def)
  moreover have "child_nodes (fixture_AB ! 0) = [(''A'', 1), (''B'', 2)]"
    by (simp add: fixture_AB_def new_MCTSNode_def)
  moreover have "wins (fixture_AB ! 1) = 3 \<and> visits (fixture_AB ! 1) = 4
      \<and> wins (fixture_AB ! 2) = 5 \<and> visits (fixture_AB ! 2) = 10"
    by (simp add: fixture_AB_def new_MCTSNode_def)
  ultimately show ?thesis
    by (simp add: best_scan_snoc get_best_action_def)
qed

text \<open>
  Claim C9.  When the root has no children, \<^verbatim>\<open>get_best_action\<close> returns \<^verbatim>\<open>None\<close>, the
  absence value, and raises nothing.
\<close>

theorem get_best_action_no_children:
  "child_nodes (h ! root_node) = [] \<Longrightarrow> get_best_action h root_node = Inr None"
  by (simp add: get_best_action_def)

theorem get_best_action_no_children_witness:
  "child_nodes (fixture_bare ! 0) = [] \<and> get_best_action fixture_bare 0 = Inr None"
proof -
  have c: "child_nodes (fixture_bare ! 0) = []"
    by (simp add: fixture_bare_def new_MCTSNode_def)
  from get_best_action_no_children [OF c] c show ?thesis by simp
qed

text \<open>
  Claim C10.  When the root has at least one child and every child has been visited at
  least once, the first child scanned becomes the best so far (its win rate is at least
  0, above the sentinel \<open>-1000000000\<close>, and its visit count is at least 1, above the
  sentinel \<open>-1\<close>), and \<^verbatim>\<open>get_best_action\<close> returns an action, never \<^verbatim>\<open>None\<close>.
\<close>

theorem get_best_action_some:
  assumes "child_nodes (h ! root_node) = (a, c) # rest"
    and "\<forall>(b, d) \<in> set (child_nodes (h ! root_node)). 1 \<le> visits (h ! d)"
  shows "best_scan h (child_nodes (h ! root_node)) (- 1000000000, - 1, None) =
           best_scan h rest
             (real (wins (h ! c)) / real (visits (h ! c)), int (visits (h ! c)), Some a)
         \<and> (\<exists>m. get_best_action h root_node = Inr (Some m))"
proof -
  from assms have c: "visits (h ! c) \<noteq> 0" and rest: "\<forall>(b, d) \<in> set rest. 1 \<le> visits (h ! d)"
    by auto
  have "(0::real) \<le> real (wins (h ! c)) / real (visits (h ! c))" by simp
  then have rate: "- 1000000000 < real (wins (h ! c)) / real (visits (h ! c))" by linarith
  have first: "best_scan h ((a, c) # rest) (- 1000000000, - 1, None) =
      best_scan h rest (real (wins (h ! c)) / real (visits (h ! c)), int (visits (h ! c)), Some a)"
    using c rate by simp
  from best_scan_keeps_some [OF rest]
  obtain val' visit' m where
    "best_scan h rest (real (wins (h ! c)) / real (visits (h ! c)), int (visits (h ! c)), Some a)
       = Inr (val', visit', Some m)"
    by blast
  with first assms(1) show ?thesis by (simp add: get_best_action_def)
qed

theorem get_best_action_some_witness:
  "child_nodes (fixture_one ! 0) = [(''A'', 1)]
   \<and> visits (fixture_one ! 1) = 1
   \<and> (\<exists>m. get_best_action fixture_one 0 = Inr (Some m))"
proof -
  have c: "child_nodes (fixture_one ! 0) = (''A'', 1) # []"
    by (simp add: fixture_one_def new_MCTSNode_def)
  have v: "\<forall>(b, d) \<in> set (child_nodes (fixture_one ! 0)). 1 \<le> visits (fixture_one ! d)"
    by (simp add: fixture_one_def new_MCTSNode_def)
  have v1: "visits (fixture_one ! 1) = 1"
    by (simp add: fixture_one_def new_MCTSNode_def)
  from get_best_action_some [OF c v] c v1 show ?thesis by simp
qed

section \<open>Properties of the score and of the heuristic rollout\<close>

lemma euler_above: "(2.71828 :: real) < exp 1"
proof -
  obtain t :: real where t: "exp (1::real) = (\<Sum>m<10. 1 ^ m / fact m) + (exp t / fact 10) * 1 ^ 10"
    using Maclaurin_exp_lt [of "1::real" 10] by auto
  have s: "(\<Sum>m<10. (1::real) ^ m / fact m) = 98641 / 36288"
    by (simp add: lessThan_nat_numeral lessThan_Suc fact_numeral)
  have p: "0 < exp t / fact 10" by simp
  have "exp (1::real) = 98641 / 36288 + exp t / fact 10"
    unfolding t s by simp
  with p have "(98641 / 36288 :: real) < exp 1" by linarith
  moreover have "(2.71828 :: real) < 98641 / 36288" by simp
  ultimately show ?thesis by linarith
qed

lemma ln_approx_e_less_1: "ln (2.71828 :: real) < 1"
proof -
  have "ln (2.71828 :: real) < ln (exp 1)"
    using euler_above by (subst ln_less_cancel_iff) simp_all
  then show ?thesis by simp
qed

lemma ln_approx_e_pos: "0 < ln (2.71828 :: real)"
  by simp

lemma ucb_value:
  assumes "parent (h ! node) = Some p" and "1 \<le> visits (h ! p)" and "1 \<le> visits (h ! node)"
  shows "ucb h node is_opponent =
     Inr ((if is_opponent then 1 - real (wins (h ! node)) / real (visits (h ! node))
           else real (wins (h ! node)) / real (visits (h ! node)))
          + explore_faction
            * sqrt (ln (real (visits (h ! p))) / ln 2.71828 / real (visits (h ! node))))"
proof -
  have "0 \<le> ln (real (visits (h ! p)))" using assms(2) by simp
  then have "0 \<le> ln (real (visits (h ! p))) / ln 2.71828 / real (visits (h ! node))"
    using ln_approx_e_pos by simp
  then have "\<not> ln (real (visits (h ! p))) / ln 2.71828 / real (visits (h ! node)) < 0"
    by linarith
  then show ?thesis
    using assms by (simp add: ucb_def Let_def)
qed

lemma log_base_differs:
  assumes "1 < x" and "0 < n"
  shows "sqrt (ln x / n) < sqrt (ln x / ln 2.71828 / n)"
proof -
  from assms(1) have lx: "0 < ln x" by simp
  have "ln x * ln 2.71828 < ln x * 1"
    using lx ln_approx_e_less_1 by (intro mult_strict_left_mono) simp_all
  then have "ln x < ln x / ln 2.71828"
    using ln_approx_e_pos by (simp add: pos_less_divide_eq)
  then have "ln x / n < ln x / ln 2.71828 / n"
    using assms(2) by (rule divide_strict_right_mono)
  then show ?thesis by (rule real_sqrt_less_mono)
qed

lemma ucb_exceeds_spec:
  assumes "parent (h ! node) = Some p" and "2 \<le> visits (h ! p)" and "1 \<le> visits (h ! node)"
  shows "\<exists>v. ucb h node is_opponent = Inr v
           \<and> ucb_spec (visits (h ! p)) (visits (h ! node)) (wins (h ! node)) is_opponent < v"
proof -
  from assms(2) have p1: "1 \<le> visits (h ! p)" by simp
  have "sqrt (ln (real (visits (h ! p))) / real (visits (h ! node)))
      < sqrt (ln (real (visits (h ! p))) / ln 2.71828 / real (visits (h ! node)))"
    using assms(2,3) by (intro log_base_differs) simp_all
  then show ?thesis
    unfolding ucb_value [OF assms(1) p1 assms(3)]
    by (simp add: ucb_spec_def explore_faction_def)
qed

text \<open>
  Claim C3.  For a node with parent visits 4, own visits 1 and wins 1, scored as the
  bot's own node, \<^verbatim>\<open>ucb\<close> returns \<open>1 + 2 * sqrt (ln 4 / ln 2.71828)\<close>: the logarithm of
  the parent's visits is divided by \<open>ln 2.71828\<close>, which is less than 1, so the score is
  the one to the base 2.71828 and is strictly greater than \<open>1 + 2 * sqrt (ln 4)\<close>, the
  value with the natural logarithm.
\<close>

theorem ucb_logarithm_base:
  "parent (fixture_ucb ! 1) = Some 0
   \<and> visits (fixture_ucb ! 0) = 4 \<and> visits (fixture_ucb ! 1) = 1 \<and> wins (fixture_ucb ! 1) = 1
   \<and> ucb fixture_ucb 1 False = Inr (1 + 2 * sqrt (ln 4 / ln 2.71828))
   \<and> ucb_spec 4 1 1 False = 1 + 2 * sqrt (ln 4)
   \<and> ucb_spec 4 1 1 False < 1 + 2 * sqrt (ln 4 / ln 2.71828)"
proof -
  have f: "parent (fixture_ucb ! 1) = Some 0" "visits (fixture_ucb ! 0) = 4"
    "visits (fixture_ucb ! 1) = 1" "wins (fixture_ucb ! 1) = 1"
    by (simp_all add: fixture_ucb_def new_MCTSNode_def)
  have code: "ucb fixture_ucb 1 False = Inr (1 + 2 * sqrt (ln 4 / ln 2.71828))"
    using ucb_value [of fixture_ucb 1 0 False] f by (simp add: explore_faction_def)
  have spec: "ucb_spec 4 1 1 False = 1 + 2 * sqrt (ln 4)"
    by (simp add: ucb_spec_def explore_faction_def)
  have "sqrt (ln 4 / 1) < sqrt (ln 4 / ln 2.71828 / (1::real))"
    by (rule log_base_differs) simp_all
  then have "1 + 2 * sqrt (ln 4) < 1 + 2 * sqrt (ln 4 / ln (2.71828::real))" by simp
  with f code spec show ?thesis by simp
qed

text \<open>
  Claim C2.  A rollout of \<^verbatim>\<open>mcts_modified.py\<close> from state 0 of the toy game for
  identity 1, the generator always drawing the first action.  The first step finds no
  capturing move and draws action 0, reaching state 1.  In state 1 the action 1 captures
  the box \<open>X\<close> for identity 1, and the heuristic given state 1 returns it; the code gives
  the heuristic state 0, the argument of \<^verbatim>\<open>rollout\<close>, finds nothing, draws action 0
  and ends in state 3.  The rollout that gives the heuristic the current state ends in
  state 4.
\<close>

theorem rollout_heuristic_stale_state:
  "rollout_modified always_first toy_board 0 1 0 = Some (Inr (3, 2))
   \<and> legal_actions toy_board 1 = [0, 1]
   \<and> heuristic toy_board 1 (legal_actions toy_board 1) 1 = Inr (Some 1)
   \<and> heuristic toy_board 0 (legal_actions toy_board 1) 1 = Inr None
   \<and> next_state toy_board 1 1 = 4
   \<and> rollout_spec_loop always_first toy_board 1 0 0 = Some (Inr (4, 1))"
proof -
  have "rollout_modified always_first toy_board 0 1 0 = Some (Inr (3, 2))"
    by (simp add: rollout_modified_def rollout_modified_loop.simps toy_board_def
        always_first_def choice_def)
  moreover have "rollout_spec_loop always_first toy_board 1 0 0 = Some (Inr (4, 1))"
    by (simp add: rollout_spec_loop.simps toy_board_def always_first_def choice_def)
  moreover have "heuristic toy_board 1 (legal_actions toy_board 1) 1 = Inr (Some 1)"
    by (simp add: toy_board_def)
  moreover have "heuristic toy_board 0 (legal_actions toy_board 1) 1 = Inr None"
    by (simp add: toy_board_def)
  moreover have "legal_actions toy_board 1 = [0, 1]" "next_state toy_board 1 1 = 4"
    by (simp_all add: toy_board_def)
  ultimately show ?thesis by simp
qed

section \<open>Properties of expansion\<close>

lemma update_set_subset: "set (AList.update k v al) \<subseteq> insert (k, v) (set al)"
  by (induction al) auto

lemma update_mem: "(k, v) \<in> set (AList.update k v al)"
  by (induction al) auto

lemma expand_leaf_ended:
  "is_ended board state \<Longrightarrow> expand_leaf h node board state = Inr (h, node, state)"
  by (simp add: expand_leaf_def)

lemma expand_leaf_fresh:
  assumes "\<not> is_ended board state" and "untried_actions (h ! node) = a # rest"
    and "node < length h"
  shows "expand_leaf h node board state =
           Inr (expanded h node a rest (legal_actions board (next_state board state a)),
                length h, next_state board state a)"
  using assms
  by (simp add: expand_leaf_def expanded_def Let_def list_update_append1 nth_append)

lemma expand_leaf_empty:
  "\<not> is_ended board state \<Longrightarrow> untried_actions (h ! node) = [] \<Longrightarrow>
   expand_leaf h node board state = Inl IndexError"
  by (simp add: expand_leaf_def)

lemma expand_leaf_cases:
  assumes "expand_leaf h node board state = Inr (h1, node1, state1)" and "node < length h"
  shows "(is_ended board state \<and> h1 = h \<and> node1 = node \<and> state1 = state)
       \<or> (\<exists>a rest. \<not> is_ended board state \<and> untried_actions (h ! node) = a # rest
            \<and> h1 = expanded h node a rest (legal_actions board (next_state board state a))
            \<and> node1 = length h \<and> state1 = next_state board state a)"
proof (cases "is_ended board state")
  case True
  with assms show ?thesis by (simp add: expand_leaf_ended)
next
  case False
  show ?thesis
  proof (cases "untried_actions (h ! node)")
    case Nil
    with False assms show ?thesis by (simp add: expand_leaf_empty)
  next
    case (Cons a rest)
    with False assms show ?thesis by (auto simp add: expand_leaf_fresh)
  qed
qed

lemma expanded_length: "length (expanded h node a rest L) = Suc (length h)"
  by (simp add: expanded_def)

lemma expanded_new: "expanded h node a rest L ! length h = new_MCTSNode (Some node) (Some a) L"
  by (simp add: expanded_def nth_append)

lemma expanded_node:
  "node < length h \<Longrightarrow>
   expanded h node a rest L ! node =
     (h ! node)\<lparr>untried_actions := rest,
                child_nodes := AList.update a (length h) (child_nodes (h ! node))\<rparr>"
  by (simp add: expanded_def nth_append)

lemma expanded_other:
  "i < length h \<Longrightarrow> i \<noteq> node \<Longrightarrow> expanded h node a rest L ! i = h ! i"
  by (simp add: expanded_def nth_append)

lemma expanded_parent:
  "i < length h \<Longrightarrow> parent (expanded h node a rest L ! i) = parent (h ! i)"
  by (cases "i = node") (simp_all add: expanded_node expanded_other)

lemma expanded_counters:
  "i < length h \<Longrightarrow> visits (expanded h node a rest L ! i) = visits (h ! i)
     \<and> wins (expanded h node a rest L ! i) = wins (h ! i)"
  by (cases "i = node") (simp_all add: expanded_node expanded_other)

lemma tree_shape_expanded:
  assumes "tree_shape h" and "node < length h"
  shows "tree_shape (expanded h node a rest L)"
  unfolding tree_shape_def
proof (intro conjI allI impI)
  show "expanded h node a rest L \<noteq> []" by (simp add: expanded_def)
  from assms(2) have "0 < length h" by auto
  then show "parent (expanded h node a rest L ! 0) = None"
    using assms(1) by (simp add: expanded_parent tree_shape_def)
next
  fix i assume i: "i < length (expanded h node a rest L)" and pos: "0 < i"
  show "\<exists>p<i. parent (expanded h node a rest L ! i) = Some p"
  proof (cases "i = length h")
    case True
    with assms(2) show ?thesis by (simp add: expanded_new new_MCTSNode_def)
  next
    case False
    with i have "i < length h" by (simp add: expanded_length)
    with assms(1) pos show ?thesis by (simp add: expanded_parent tree_shape_def)
  qed
qed

lemma children_ok_expanded:
  assumes "children_ok h" and "node < length h"
  shows "children_ok (expanded h node a rest L)"
  unfolding children_ok_def
proof (intro allI impI ballI)
  fix i x
  assume i: "i < length (expanded h node a rest L)"
    and x: "x \<in> set (child_nodes (expanded h node a rest L ! i))"
  obtain b c where bc: "x = (b, c)" by (cases x)
  have old: "\<And>j b c. j < length h \<Longrightarrow> (b, c) \<in> set (child_nodes (h ! j)) \<Longrightarrow>
      c < length h \<and> parent (h ! c) = Some j"
    using assms(1) unfolding children_ok_def by blast
  have "c < length (expanded h node a rest L) \<and> parent (expanded h node a rest L ! c) = Some i"
  proof (cases "i = length h")
    case True
    with x show ?thesis by (simp add: expanded_new new_MCTSNode_def)
  next
    case False
    with i have ih: "i < length h" by (simp add: expanded_length)
    show ?thesis
    proof (cases "i = node")
      case True
      with x bc assms(2) have "(b, c) \<in> insert (a, length h) (set (child_nodes (h ! node)))"
        using update_set_subset [of a "length h" "child_nodes (h ! node)"]
        by (auto simp add: expanded_node)
      then show ?thesis
      proof
        assume "(b, c) = (a, length h)"
        with True show ?thesis by (simp add: expanded_length expanded_new new_MCTSNode_def)
      next
        assume "(b, c) \<in> set (child_nodes (h ! node))"
        from old [OF assms(2) this] True show ?thesis
          by (simp add: expanded_length expanded_parent)
      qed
    next
      case False
      with x bc ih have "(b, c) \<in> set (child_nodes (h ! i))" by (simp add: expanded_other)
      from old [OF ih this] show ?thesis
        by (simp add: expanded_length expanded_parent)
    qed
  qed
  with bc show "case x of (a', c') \<Rightarrow>
      c' < length (expanded h node a rest L) \<and> parent (expanded h node a rest L ! c') = Some i"
    by simp
qed

section \<open>Properties of selection\<close>

lemma uct_scan_result:
  "uct_scan h opp cs (u0, cn0, cm0) = Inr (u, cn, cm) \<Longrightarrow>
   (cn = cn0 \<and> cm = cm0) \<or> (\<exists>a c. (a, c) \<in> set cs \<and> cn = Some c \<and> cm = Some a)"
proof (induction cs arbitrary: u0 cn0 cm0)
  case Nil
  then show ?case by simp
next
  case (Cons x cs)
  obtain b d where x: "x = (b, d)" by (cases x)
  from Cons.prems obtain v where v: "ucb h d opp = Inr v"
    unfolding x by (auto split: sum.splits)
  show ?case
  proof (cases "v > u0")
    case True
    with Cons.prems v have "uct_scan h opp cs (v, Some d, Some b) = Inr (u, cn, cm)"
      by (simp add: x)
    from Cons.IH [OF this] show ?thesis by (auto simp add: x)
  next
    case False
    with Cons.prems v have "uct_scan h opp cs (u0, cn0, cm0) = Inr (u, cn, cm)"
      by (simp add: x)
    from Cons.IH [OF this] show ?thesis by auto
  qed
qed

lemma traverse_loop_stops:
  assumes "traverse_loop h board bid starter game cid = Some y"
  shows "\<forall>n s. y = Inr (n, s) \<longrightarrow> is_ended board s \<or> untried_actions (h ! n) \<noteq> []"
  apply (rule traverse_loop.raw_induct
      [where P = "\<lambda>h board bid starter game cid y.
         \<forall>n s. y = Inr (n, s) \<longrightarrow> is_ended board s \<or> untried_actions (h ! n) \<noteq> []",
       OF _ assms])
  subgoal premises prems for loop h board bid starter game cid y
    using prems(2) prems(1)
    by (auto split: if_splits sum.splits prod.splits option.splits)
  done

lemma traverse_loop_in_store:
  assumes "traverse_loop h board bid starter game cid = Some y"
  shows "children_ok h \<longrightarrow> starter < length h \<longrightarrow> (\<forall>n s. y = Inr (n, s) \<longrightarrow> n < length h)"
  apply (rule traverse_loop.raw_induct
      [where P = "\<lambda>h board bid starter game cid y.
         children_ok h \<longrightarrow> starter < length h \<longrightarrow> (\<forall>n s. y = Inr (n, s) \<longrightarrow> n < length h)",
       OF _ assms])
  subgoal premises prems for loop h board bid starter game cid y
  proof (intro impI allI)
    fix n s
    assume ok: "children_ok h" and st: "starter < length h" and y: "y = Inr (n, s)"
    show "n < length h"
    proof (cases "untried_actions (h ! starter) = [] \<and> \<not> is_ended board game")
      case False
      with prems(2) y st show ?thesis by auto
    next
      case True
      with prems(2) y obtain u c m where
        scan: "uct_scan h (cid \<noteq> bid) (child_nodes (h ! starter)) (- 1000000000, None, None)
                 = Inr (u, Some c, Some m)"
        and rec: "loop h board bid c (next_state board game m) (if cid = 2 then 1 else 2)
                 = Some (Inr (n, s))"
        by (auto split: sum.splits prod.splits option.splits)
      from uct_scan_result [OF scan] have "(m, c) \<in> set (child_nodes (h ! starter))" by auto
      with ok st have "c < length h" unfolding children_ok_def by blast
      with prems(1) [OF rec] ok show ?thesis by simp
    qed
  qed
  done

lemma traverse_nodes_result:
  assumes "traverse_nodes h root_node board state bid = Some (Inr (n, s))"
  shows "is_ended board s \<or> untried_actions (h ! n) \<noteq> []"
    and "children_ok h \<Longrightarrow> root_node < length h \<Longrightarrow> n < length h"
  using traverse_loop_stops [OF assms [unfolded traverse_nodes_def]]
    traverse_loop_in_store [OF assms [unfolded traverse_nodes_def]]
  by simp_all

text \<open>
  Claim C7.  \<^verbatim>\<open>expand_leaf\<close> on a node of the store and a state: when the state has
  ended it returns the same node and state and leaves the store as it is; otherwise, the
  node's untried actions being \<open>a\<close> followed by \<open>rest\<close>, it removes the front element
  \<open>a\<close>, computes the successor state by \<^verbatim>\<open>next_state\<close>, allocates a new node whose
  parent is the node, whose parent action is \<open>a\<close> and whose untried actions are the legal
  actions of the successor, registers it under \<open>a\<close> in the node's children, changes no
  other node, and returns the new node with the successor state.  The node and state that
  \<^verbatim>\<open>traverse_nodes\<close> hands over always fall under one of the two cases.
\<close>

theorem expand_leaf_contract:
  assumes "node < length h"
  shows "(is_ended board state \<longrightarrow> expand_leaf h node board state = Inr (h, node, state))
    \<and> (\<not> is_ended board state \<longrightarrow> untried_actions (h ! node) = a # rest \<longrightarrow>
         expand_leaf h node board state =
           Inr (h[node := (h ! node)
                    \<lparr>untried_actions := rest,
                     child_nodes := AList.update a (length h) (child_nodes (h ! node))\<rparr>]
                  @ [new_MCTSNode (Some node) (Some a)
                       (legal_actions board (next_state board state a))],
                length h, next_state board state a))
    \<and> (traverse_nodes h root_node board state0 bid = Some (Inr (node, state)) \<longrightarrow>
         is_ended board state \<or> (\<exists>a rest. untried_actions (h ! node) = a # rest))"
proof (intro conjI impI)
  assume "is_ended board state"
  then show "expand_leaf h node board state = Inr (h, node, state)"
    by (rule expand_leaf_ended)
next
  assume "\<not> is_ended board state" and "untried_actions (h ! node) = a # rest"
  from expand_leaf_fresh [OF this assms]
  show "expand_leaf h node board state =
           Inr (h[node := (h ! node)
                    \<lparr>untried_actions := rest,
                     child_nodes := AList.update a (length h) (child_nodes (h ! node))\<rparr>]
                  @ [new_MCTSNode (Some node) (Some a)
                       (legal_actions board (next_state board state a))],
                length h, next_state board state a)"
    by (simp add: expanded_def)
next
  assume "traverse_nodes h root_node board state0 bid = Some (Inr (node, state))"
  from traverse_nodes_result(1) [OF this]
  show "is_ended board state \<or> (\<exists>a rest. untried_actions (h ! node) = a # rest)"
    by (cases "untried_actions (h ! node)") simp_all
qed

lemma toy_traverse_root: "traverse_nodes toy_root 0 toy_board 0 1 = Some (Inr (0, 0))"
  by (simp add: traverse_nodes_def traverse_loop.simps toy_root_def toy_board_def new_MCTSNode_def)

theorem expand_leaf_contract_witness:
  "expand_leaf toy_root 0 toy_board 3 = Inr (toy_root, 0, 3)
   \<and> traverse_nodes toy_root 0 toy_board 0 1 = Some (Inr (0, 0))
   \<and> untried_actions (toy_root ! 0) = [0, 1]
   \<and> expand_leaf toy_root 0 toy_board 0 =
       Inr ([new_MCTSNode None None [0, 1] \<lparr>untried_actions := [1], child_nodes := [(0, 1)]\<rparr>,
             new_MCTSNode (Some 0) (Some 0) [0, 1]], 1, 1)"
proof -
  have len: "0 < length toy_root" by (simp add: toy_root_def)
  have ended: "is_ended toy_board 3" and live: "\<not> is_ended toy_board 0"
    by (simp_all add: toy_board_def)
  have untried: "untried_actions (toy_root ! 0) = 0 # [1]"
    by (simp add: toy_root_def toy_board_def new_MCTSNode_def)
  from expand_leaf_contract [OF len, of toy_board 3] ended
  have 1: "expand_leaf toy_root 0 toy_board 3 = Inr (toy_root, 0, 3)" by simp
  from expand_leaf_contract [OF len, of toy_board 0 0 "[1]"] live untried
  have 2: "expand_leaf toy_root 0 toy_board 0 =
       Inr ([new_MCTSNode None None [0, 1] \<lparr>untried_actions := [1], child_nodes := [(0, 1)]\<rparr>,
             new_MCTSNode (Some 0) (Some 0) [0, 1]], 1, 1)"
    by (simp add: toy_root_def toy_board_def new_MCTSNode_def)
  from 1 2 untried toy_traverse_root show ?thesis by simp
qed

section \<open>Properties of backpropagation\<close>

lemma on_path_le: "on_path h n i \<Longrightarrow> tree_shape h \<Longrightarrow> n < length h \<Longrightarrow> i \<le> n"
proof (induction rule: on_path.induct)
  case (self n)
  then show ?case by simp
next
  case (up n p i)
  from up.prems up.hyps(1) have "p < n"
    unfolding tree_shape_def by (cases "n = 0") force+
  with up show ?case by simp
qed

lemma on_path_root: "tree_shape h \<Longrightarrow> n < length h \<Longrightarrow> on_path h n 0"
proof (induction n rule: less_induct)
  case (less n)
  show ?case
  proof (cases "n = 0")
    case True
    then show ?thesis by (simp add: on_path.self)
  next
    case False
    with less.prems obtain p where p: "p < n" "parent (h ! n) = Some p"
      unfolding tree_shape_def by auto
    with less have "on_path h p 0" by simp
    with p show ?thesis by (blast intro: on_path.up)
  qed
qed

lemma on_path_cases: "on_path h n i \<longleftrightarrow> i = n \<or> (\<exists>p. parent (h ! n) = Some p \<and> on_path h p i)"
  by (auto intro: on_path.intros elim: on_path.cases)

lemma on_path_same_links:
  "same_links h h' \<Longrightarrow> tree_shape h \<Longrightarrow> n < length h \<Longrightarrow> on_path h' n i = on_path h n i"
proof (induction n rule: less_induct)
  case (less n)
  show ?case
  proof (cases "parent (h ! n)")
    case None
    with less.prems have "parent (h' ! n) = None" by (simp add: same_links_def)
    with None show ?thesis
      by (subst on_path_cases, subst (2) on_path_cases) simp
  next
    case (Some p)
    with less.prems have p': "parent (h' ! n) = Some p" by (simp add: same_links_def)
    from Some less.prems have "p < n" unfolding tree_shape_def by (cases "n = 0") force+
    with less have "on_path h' p i = on_path h p i" by simp
    with Some p' show ?thesis
      by (subst on_path_cases, subst (2) on_path_cases) simp
  qed
qed

lemma tree_shape_same_links: "same_links h h' \<Longrightarrow> tree_shape h \<Longrightarrow> tree_shape h'"
  unfolding tree_shape_def same_links_def by auto

lemma backpropagate_total:
  "tree_shape h \<Longrightarrow> n < length h \<Longrightarrow>
   \<exists>h'. backpropagate h n won = Some h' \<and> length h' = length h
        \<and> (\<forall>i<length h. h' ! i = bumped h n won i)"
proof (induction n arbitrary: h rule: less_induct)
  case (less n)
  let ?h1 = "h[n := (h ! n)\<lparr>visits := visits (h ! n) + 1\<rparr>]"
  show ?case
  proof (cases "parent (h ! n)")
    case None
    have path: "\<And>i. on_path h n i \<longleftrightarrow> i = n"
      using None by (subst on_path_cases) simp
    have "backpropagate h n won = Some ?h1"
      using None less.prems by (subst backpropagate.simps) simp
    moreover have "\<forall>i<length h. ?h1 ! i = bumped h n won i"
      using None by (simp add: bumped_def path nth_list_update)
    ultimately show ?thesis by simp
  next
    case (Some p)
    define h2 where
      "h2 = ?h1[n := (?h1 ! n)\<lparr>wins := wins (?h1 ! n) + (if won then 1 else 0)\<rparr>]"
    from Some less.prems have pn: "p < n" unfolding tree_shape_def by (cases "n = 0") force+
    have len2: "length h2 = length h" by (simp add: h2_def)
    have at_n: "h2 ! n = (h ! n)\<lparr>visits := visits (h ! n) + 1,
                                  wins := wins (h ! n) + (if won then 1 else 0)\<rparr>"
      using less.prems(2) by (simp add: h2_def)
    have off_n: "\<And>i. i \<noteq> n \<Longrightarrow> h2 ! i = h ! i"
      by (simp add: h2_def)
    have links: "same_links h h2"
      unfolding same_links_def
    proof (intro conjI allI impI)
      fix i assume "i < length h"
      show "parent (h2 ! i) = parent (h ! i)"
        by (cases "i = n") (simp_all add: at_n off_n)
    qed (rule len2)
    then have shape2: "tree_shape h2" using less.prems(1) by (rule tree_shape_same_links)
    from pn less.prems have p2: "p < length h2" by (simp add: len2)
    from less.IH [OF pn shape2 p2] obtain h' where
      run: "backpropagate h2 p won = Some h'" and len: "length h' = length h2"
      and post: "\<forall>i<length h2. h' ! i = bumped h2 p won i"
      by blast
    have unfold: "backpropagate h n won = backpropagate h2 p won"
      using Some less.prems by (subst backpropagate.simps) (simp add: h2_def)
    have path: "\<And>i. on_path h n i \<longleftrightarrow> i = n \<or> on_path h p i"
      using Some by (subst on_path_cases) simp
    have path2: "\<And>i. on_path h2 p i = on_path h p i"
      using on_path_same_links [OF links less.prems(1)] pn less.prems(2) by simp
    have notn: "\<not> on_path h p n"
      using on_path_le [of h p n] pn less.prems by auto
    have "\<forall>i<length h. h' ! i = bumped h n won i"
    proof (intro allI impI)
      fix i assume i: "i < length h"
      with post have eq: "h' ! i = bumped h2 p won i" by (simp add: len2)
      show "h' ! i = bumped h n won i"
      proof (cases "i = n")
        case True
        show ?thesis
          unfolding eq using True Some notn by (simp add: bumped_def path path2 at_n)
      next
        case False
        show ?thesis
          unfolding eq using False by (simp add: bumped_def path path2 off_n)
      qed
    qed
    with run len unfold len2 show ?thesis by simp
  qed
qed

section \<open>One iteration of the search\<close>

lemma think_iteration_steps:
  assumes "think_iteration ro board s0 bid root_node h r = Some (Inr (h', r'))"
  obtains node state h1 node1 state1 state2 won where
    "traverse_nodes h root_node board s0 bid = Some (Inr (node, state))"
    "expand_leaf h node board state = Inr (h1, node1, state1)"
    "ro state1 r = Some (Inr (state2, r'))"
    "is_win board state2 bid = Inr won"
    "backpropagate h1 node1 won = Some h'"
  using assms unfolding think_iteration_def
  by (auto split: option.splits sum.splits prod.splits)

lemma think_iteration_effect:
  assumes "think_iteration ro board s0 bid root_node h r = Some (Inr (h', r'))"
    and "tree_shape h" and "children_ok h" and "root_node < length h"
  shows "\<exists>h1 node1 won. grown board h h1 node1 \<and> tree_shape h1 \<and> children_ok h1
           \<and> node1 < length h1 \<and> length h' = length h1
           \<and> (\<forall>i<length h1. h' ! i = bumped h1 node1 won i)"
proof -
  from assms(1) obtain node state h1 node1 state1 state2 won where
    tr: "traverse_nodes h root_node board s0 bid = Some (Inr (node, state))"
    and ex: "expand_leaf h node board state = Inr (h1, node1, state1)"
    and bp: "backpropagate h1 node1 won = Some h'"
    by (rule think_iteration_steps)
  from traverse_nodes_result(2) [OF tr assms(3,4)] have node: "node < length h" .
  from expand_leaf_cases [OF ex node]
  have g: "grown board h h1 node1 \<and> tree_shape h1 \<and> children_ok h1 \<and> node1 < length h1"
  proof
    assume "is_ended board state \<and> h1 = h \<and> node1 = node \<and> state1 = state"
    with node assms(2,3) show ?thesis by (simp add: grown_def)
  next
    assume "\<exists>a rest. \<not> is_ended board state \<and> untried_actions (h ! node) = a # rest
            \<and> h1 = expanded h node a rest (legal_actions board (next_state board state a))
            \<and> node1 = length h \<and> state1 = next_state board state a"
    then obtain a rest where u: "untried_actions (h ! node) = a # rest"
      and h1: "h1 = expanded h node a rest (legal_actions board (next_state board state a))"
      and n1: "node1 = length h"
      by blast
    have "grown board h h1 node1"
      unfolding grown_def using node u h1 n1 by blast
    moreover have "tree_shape h1" unfolding h1 using assms(2) node by (rule tree_shape_expanded)
    moreover have "children_ok h1" unfolding h1 using assms(3) node by (rule children_ok_expanded)
    moreover have "node1 < length h1" by (simp add: h1 n1 expanded_length)
    ultimately show ?thesis by simp
  qed
  then have sh: "tree_shape h1" and n1: "node1 < length h1" by simp_all
  from backpropagate_total [OF sh n1, of won] bp
  have "length h' = length h1 \<and> (\<forall>i<length h1. h' ! i = bumped h1 node1 won i)" by simp
  with g show ?thesis by blast
qed

lemma bumped_fields:
  "parent (bumped h n won i) = parent (h ! i)"
  "parent_action (bumped h n won i) = parent_action (h ! i)"
  "child_nodes (bumped h n won i) = child_nodes (h ! i)"
  "untried_actions (bumped h n won i) = untried_actions (h ! i)"
  by (simp_all add: bumped_def)

lemma bumped_visits:
  "visits (bumped h n won i) = visits (h ! i) + (if on_path h n i then 1 else 0)"
  by (simp add: bumped_def)

lemma bumped_wins:
  "wins (bumped h n won i) =
     wins (h ! i) + (if on_path h n i \<and> parent (h ! i) \<noteq> None \<and> won then 1 else 0)"
  by (simp add: bumped_def)

lemma tree_shape_bumped:
  assumes "tree_shape h1" and "length h' = length h1"
    and "\<forall>i<length h1. h' ! i = bumped h1 n won i"
  shows "tree_shape h'"
proof -
  have "same_links h1 h'"
    unfolding same_links_def using assms(2,3) by (simp add: bumped_fields)
  then show ?thesis using assms(1) by (rule tree_shape_same_links)
qed

lemma children_ok_bumped:
  assumes "children_ok h1" and "length h' = length h1"
    and "\<forall>i<length h1. h' ! i = bumped h1 n won i"
  shows "children_ok h'"
  unfolding children_ok_def
proof (intro allI impI ballI)
  fix i x assume i: "i < length h'" and x: "x \<in> set (child_nodes (h' ! i))"
  obtain b c where bc: "x = (b, c)" by (cases x)
  from i x bc assms(2,3) have "(b, c) \<in> set (child_nodes (h1 ! i))" by (simp add: bumped_fields)
  with assms(1) i assms(2) have c: "c < length h1 \<and> parent (h1 ! c) = Some i"
    unfolding children_ok_def by fastforce
  with assms(2,3) have "c < length h' \<and> parent (h' ! c) = Some i" by (simp add: bumped_fields)
  with bc show "case x of (a, c) \<Rightarrow> c < length h' \<and> parent (h' ! c) = Some i" by simp
qed

section \<open>The loop of the driver\<close>

lemma grown_length: "grown board h h1 node1 \<Longrightarrow> length h \<le> length h1"
  unfolding grown_def by (auto simp add: expanded_length)

lemma grown_old_counters:
  assumes "grown board h h1 node1" and "i < length h"
  shows "visits (h1 ! i) = visits (h ! i)" and "wins (h1 ! i) = wins (h ! i)"
  using assms unfolding grown_def by (auto simp add: expanded_counters)

lemma grown_new_node:
  assumes "grown board h h1 node1" and "i < length h1" and "\<not> i < length h"
  shows "i = node1 \<and> visits (h1 ! i) = 0 \<and> wins (h1 ! i) = 0 \<and> child_nodes (h1 ! i) = []"
  using assms unfolding grown_def
  by (auto simp add: expanded_length expanded_new new_MCTSNode_def less_Suc_eq)

lemma iteration_root_visits:
  assumes "think_iteration ro board s0 bid 0 h r = Some (Inr (h', r'))"
    and "tree_shape h" and "children_ok h"
  shows "tree_shape h' \<and> children_ok h' \<and> visits (h' ! 0) = Suc (visits (h ! 0))"
proof -
  from assms(2) have h0: "0 < length h" by (simp add: tree_shape_def)
  from think_iteration_effect [OF assms h0] obtain h1 node1 won where
    g: "grown board h h1 node1" and sh: "tree_shape h1" and ch: "children_ok h1"
    and n1: "node1 < length h1" and len: "length h' = length h1"
    and post: "\<forall>i<length h1. h' ! i = bumped h1 node1 won i"
    by blast
  from h0 grown_length [OF g] have h10: "0 < length h1" by (rule less_le_trans)
  have "on_path h1 node1 0" using sh n1 by (rule on_path_root)
  with post h10 have "visits (h' ! 0) = Suc (visits (h1 ! 0))" by (simp add: bumped_visits)
  with grown_old_counters(1) [OF g h0] have "visits (h' ! 0) = Suc (visits (h ! 0))" by simp
  moreover have "tree_shape h'" using sh len post by (rule tree_shape_bumped)
  moreover have "children_ok h'" using ch len post by (rule children_ok_bumped)
  ultimately show ?thesis by simp
qed

lemma think_loop_indexed:
  assumes step: "\<And>k h r h' r'. I k h \<Longrightarrow>
      think_iteration ro board s0 bid root_node h r = Some (Inr (h', r')) \<Longrightarrow> I (Suc k) h'"
  shows "think_loop ro board s0 bid root_node n h r = Some (Inr (h', r')) \<Longrightarrow> I k h \<Longrightarrow> I (k + n) h'"
proof (induction n arbitrary: h r k)
  case 0
  then show ?case by simp
next
  case (Suc n)
  from Suc.prems(1) obtain h1 r1 where
    it: "think_iteration ro board s0 bid root_node h r = Some (Inr (h1, r1))"
    and rest: "think_loop ro board s0 bid root_node n h1 r1 = Some (Inr (h', r'))"
    by (auto split: option.splits sum.splits prod.splits)
  from step [OF Suc.prems(2) it] have "I (Suc k) h1" .
  from Suc.IH [OF rest this] show ?case by simp
qed

lemma root_store_shape:
  "tree_shape [new_MCTSNode None None L]" "children_ok [new_MCTSNode None None L]"
  by (simp_all add: tree_shape_def children_ok_def new_MCTSNode_def)

lemma think_loop_root_visits:
  assumes "think_loop ro board s0 bid 0 n h r = Some (Inr (h', r'))"
    and "tree_shape h" and "children_ok h"
  shows "tree_shape h' \<and> children_ok h' \<and> visits (h' ! 0) = visits (h ! 0) + n"
proof -
  have "tree_shape h' \<and> children_ok h' \<and> visits (h' ! 0) = visits (h ! 0) + (0 + n)"
  proof (rule think_loop_indexed
      [where I = "\<lambda>k g. tree_shape g \<and> children_ok g \<and> visits (g ! 0) = visits (h ! 0) + k",
       OF _ assms(1)])
    fix k g r g' r'
    assume inv: "tree_shape g \<and> children_ok g \<and> visits (g ! 0) = visits (h ! 0) + k"
      and it: "think_iteration ro board s0 bid 0 g r = Some (Inr (g', r'))"
    from inv have "tree_shape g" "children_ok g" by simp_all
    from iteration_root_visits [OF it this] inv
    show "tree_shape g' \<and> children_ok g' \<and> visits (g' ! 0) = visits (h ! 0) + Suc k"
      by simp
  next
    from assms(2,3) show "tree_shape h \<and> children_ok h \<and> visits (h ! 0) = visits (h ! 0) + 0"
      by simp
  qed
  then show ?thesis by simp
qed

lemma iteration_wins_inv:
  assumes "think_iteration ro board s0 bid 0 h r = Some (Inr (h', r'))"
    and "tree_shape h" and "children_ok h" and "wins_inv h"
  shows "wins_inv h'"
proof -
  from assms(2) have h0: "0 < length h" by (simp add: tree_shape_def)
  from think_iteration_effect [OF assms(1-3) h0] obtain h1 node1 won where
    g: "grown board h h1 node1" and len: "length h' = length h1"
    and post: "\<forall>i<length h1. h' ! i = bumped h1 node1 won i"
    by blast
  have "wins (h' ! i) \<le> visits (h' ! i)" if i: "i < length h'" for i
  proof -
    from i len have i1: "i < length h1" by simp
    have before: "wins (h1 ! i) \<le> visits (h1 ! i)"
    proof (cases "i < length h")
      case True
      with assms(4) grown_old_counters [OF g True] show ?thesis by (simp add: wins_inv_def)
    next
      case False
      from grown_new_node [OF g i1 False] show ?thesis by auto
    qed
    from post i1 have "h' ! i = bumped h1 node1 won i" by simp
    with before show ?thesis by (simp add: bumped_visits bumped_wins)
  qed
  then show ?thesis by (simp add: wins_inv_def)
qed

lemma grown_children:
  assumes "grown board h h1 node1" and "i < length h" and "child_nodes (h1 ! i) \<noteq> []"
  shows "child_nodes (h ! i) \<noteq> [] \<or> parent (h1 ! node1) = Some i"
  using assms unfolding grown_def
proof (elim disjE exE conjE)
  fix node a rest s
  assume node: "node < length h" and h1: "h1 = expanded h node a rest (legal_actions board s)"
    and n1: "node1 = length h"
  show ?thesis
  proof (cases "i = node")
    case True
    then show ?thesis by (simp add: h1 n1 expanded_new new_MCTSNode_def)
  next
    case False
    with assms(2,3) show ?thesis by (simp add: h1 expanded_other)
  qed
qed simp

lemma iteration_visited_inv:
  assumes "think_iteration ro board s0 bid 0 h r = Some (Inr (h', r'))"
    and "tree_shape h" and "children_ok h" and "visited_inv h"
  shows "visited_inv h'"
proof -
  from assms(2) have h0: "0 < length h" by (simp add: tree_shape_def)
  from think_iteration_effect [OF assms(1-3) h0] obtain h1 node1 won where
    g: "grown board h h1 node1" and n1: "node1 < length h1" and len: "length h' = length h1"
    and post: "\<forall>i<length h1. h' ! i = bumped h1 node1 won i"
    by blast
  have v: "visits (h' ! i) = visits (h1 ! i) + (if on_path h1 node1 i then 1 else 0)"
    and c: "child_nodes (h' ! i) = child_nodes (h1 ! i)" if "i < length h1" for i
    using post that by (simp_all add: bumped_visits bumped_fields)
  have old: "visits (h ! i) \<le> visits (h' ! i)" if "i < length h" for i
  proof -
    from that grown_length [OF g] have "i < length h1" by simp
    from v [OF this] grown_old_counters(1) [OF g that] show ?thesis by simp
  qed
  have new: "1 \<le> visits (h' ! i)" if i1: "i < length h1" and "\<not> i < length h" for i
  proof -
    from grown_new_node [OF g i1 that(2)] have "i = node1" by simp
    then have "on_path h1 node1 i" by (simp add: on_path.self)
    with v [OF i1] show ?thesis by simp
  qed
  have first: "1 \<le> visits (h' ! i)" if i: "i < length h'" and pos: "0 < i" for i
  proof (cases "i < length h")
    case True
    with assms(4) pos have "1 \<le> visits (h ! i)" by (simp add: visited_inv_def)
    with old [OF True] show ?thesis by simp
  next
    case False
    with new i len show ?thesis by simp
  qed
  have second: "1 \<le> visits (h' ! i)" if i: "i < length h'" and ch: "child_nodes (h' ! i) \<noteq> []" for i
  proof (cases "i < length h")
    case True
    from i len have i1: "i < length h1" by simp
    from ch c [OF i1] have "child_nodes (h1 ! i) \<noteq> []" by simp
    from grown_children [OF g True this] show ?thesis
    proof
      assume "child_nodes (h ! i) \<noteq> []"
      with assms(4) True have "1 \<le> visits (h ! i)" by (simp add: visited_inv_def)
      with old [OF True] show ?thesis by simp
    next
      assume "parent (h1 ! node1) = Some i"
      then have "on_path h1 node1 i" by (blast intro: on_path.intros)
      with v [OF i1] show ?thesis by simp
    qed
  next
    case False
    with new i len show ?thesis by simp
  qed
  from first second show ?thesis by (simp add: visited_inv_def)
qed

lemma root_store_counters:
  "wins_inv [new_MCTSNode None None L]" "visited_inv [new_MCTSNode None None L]"
  by (simp_all add: wins_inv_def visited_inv_def new_MCTSNode_def)

lemma think_loop_inv:
  assumes "think_loop ro board s0 bid 0 n h r = Some (Inr (h', r'))"
    and "tree_shape h" and "children_ok h" and "wins_inv h" and "visited_inv h"
  shows "tree_shape h' \<and> children_ok h' \<and> wins_inv h' \<and> visited_inv h'"
proof (rule think_loop_indexed
    [where I = "\<lambda>k g. tree_shape g \<and> children_ok g \<and> wins_inv g \<and> visited_inv g" and k = 0,
     OF _ assms(1)])
  fix k g r g' r'
  assume inv: "tree_shape g \<and> children_ok g \<and> wins_inv g \<and> visited_inv g"
    and it: "think_iteration ro board s0 bid 0 g r = Some (Inr (g', r'))"
  from inv have 1: "tree_shape g" and 2: "children_ok g" and 3: "wins_inv g" and 4: "visited_inv g"
    by simp_all
  from iteration_root_visits [OF it 1 2] iteration_wins_inv [OF it 1 2 3]
    iteration_visited_inv [OF it 1 2 4]
  show "tree_shape g' \<and> children_ok g' \<and> wins_inv g' \<and> visited_inv g'" by simp
next
  from assms(2-5) show "tree_shape h \<and> children_ok h \<and> wins_inv h \<and> visited_inv h" by simp
qed

lemma child_visited:
  assumes "tree_shape h" and "children_ok h" and "visited_inv h"
    and "i < length h" and "(a, c) \<in> set (child_nodes (h ! i))"
  shows "c < length h \<and> parent (h ! c) = Some i \<and> 1 \<le> visits (h ! c) \<and> 1 \<le> visits (h ! i)"
proof -
  from assms(2,4,5) have c: "c < length h" "parent (h ! c) = Some i"
    unfolding children_ok_def by blast+
  from assms(1) c(2) have "c \<noteq> 0" by (cases "c = 0") (simp_all add: tree_shape_def)
  with assms(3) c(1) have "1 \<le> visits (h ! c)" by (simp add: visited_inv_def)
  moreover from assms(5) have "child_nodes (h ! i) \<noteq> []" by auto
  with assms(3,4) have "1 \<le> visits (h ! i)" by (simp add: visited_inv_def)
  ultimately show ?thesis using c by simp
qed

lemma uct_scan_defined:
  "\<forall>(a, c) \<in> set cs. \<exists>v. ucb h c opp = Inr v \<Longrightarrow> \<exists>st'. uct_scan h opp cs st = Inr st'"
proof (induction cs arbitrary: st)
  case Nil
  show ?case by (cases st) simp
next
  case (Cons x cs)
  obtain b d where x: "x = (b, d)" by (cases x)
  obtain u cn cm where st: "st = (u, cn, cm)" by (cases st)
  from Cons.prems x obtain v where v: "ucb h d opp = Inr v" by auto
  from Cons.prems have rest: "\<forall>(a, c) \<in> set cs. \<exists>v. ucb h c opp = Inr v" by simp
  show ?case
    unfolding x st using v Cons.IH [OF rest] by simp
qed

lemma best_scan_defined:
  "\<forall>(a, c) \<in> set cs. 1 \<le> visits (h ! c) \<Longrightarrow> \<exists>st'. best_scan h cs st = Inr st'"
proof (induction cs arbitrary: st)
  case Nil
  show ?case by (cases st) simp
next
  case (Cons x cs)
  obtain b d where x: "x = (b, d)" by (cases x)
  obtain u vi cm where st: "st = (u, vi, cm)" by (cases st)
  from Cons.prems x have d: "visits (h ! d) \<noteq> 0" by auto
  from Cons.prems have rest: "\<forall>(a, c) \<in> set cs. 1 \<le> visits (h ! c)" by simp
  show ?case
    unfolding x st using d Cons.IH [OF rest] by simp
qed

lemma scan_children_defined:
  assumes "tree_shape h" and "children_ok h" and "visited_inv h" and "i < length h"
  shows "\<exists>st'. uct_scan h opp (child_nodes (h ! i)) st = Inr st'"
proof (rule uct_scan_defined, intro ballI)
  fix x assume x: "x \<in> set (child_nodes (h ! i))"
  obtain a c where ac: "x = (a, c)" by (cases x)
  from child_visited [OF assms] x ac
  have "parent (h ! c) = Some i" "1 \<le> visits (h ! i)" "1 \<le> visits (h ! c)" by simp_all
  from ucb_value [OF this] ac show "case x of (a, c) \<Rightarrow> \<exists>v. ucb h c opp = Inr v" by simp
qed

lemma traverse_loop_safe:
  assumes "traverse_loop h board bid starter game cid = Some y"
  shows "tree_shape h \<longrightarrow> children_ok h \<longrightarrow> visited_inv h \<longrightarrow> starter < length h \<longrightarrow>
           y \<noteq> Inl ZeroDivisionError \<and> y \<noteq> Inl ValueError"
  apply (rule traverse_loop.raw_induct
      [where P = "\<lambda>h board bid starter game cid y.
         tree_shape h \<longrightarrow> children_ok h \<longrightarrow> visited_inv h \<longrightarrow> starter < length h \<longrightarrow>
           y \<noteq> Inl ZeroDivisionError \<and> y \<noteq> Inl ValueError",
       OF _ assms])
  subgoal premises prems for loop h board bid starter game cid y
  proof (intro impI)
    assume sh: "tree_shape h" and ok: "children_ok h" and vi: "visited_inv h"
      and st: "starter < length h"
    show "y \<noteq> Inl ZeroDivisionError \<and> y \<noteq> Inl ValueError"
    proof (cases "untried_actions (h ! starter) = [] \<and> \<not> is_ended board game")
      case False
      with prems(2) show ?thesis by auto
    next
      case True
      from scan_children_defined [OF sh ok vi st] obtain u cn cm where
        scan: "uct_scan h (cid \<noteq> bid) (child_nodes (h ! starter)) (- 1000000000, None, None)
                 = Inr (u, cn, cm)"
        by (metis prod_cases3)
      show ?thesis
      proof (cases "\<exists>c m. cn = Some c \<and> cm = Some m")
        case False
        with prems(2) True scan show ?thesis by (auto split: option.splits)
      next
        case True
        then obtain c m where cm: "cn = Some c" "cm = Some m" by blast
        from uct_scan_result [OF scan] cm have "(m, c) \<in> set (child_nodes (h ! starter))" by auto
        with ok st have c: "c < length h" unfolding children_ok_def by blast
        from prems(2) \<open>untried_actions (h ! starter) = [] \<and> \<not> is_ended board game\<close> scan cm
        have "loop h board bid c (next_state board game m) (if cid = 2 then 1 else 2) = Some y"
          by simp
        from prems(1) [OF this] sh ok vi c show ?thesis by simp
      qed
    qed
  qed
  done

lemma get_best_action_defined:
  assumes "tree_shape h" and "children_ok h" and "visited_inv h"
  shows "\<exists>m. get_best_action h 0 = Inr m"
proof -
  from assms(1) have h0: "0 < length h" by (simp add: tree_shape_def)
  have "\<forall>(a, c) \<in> set (child_nodes (h ! 0)). 1 \<le> visits (h ! c)"
    using child_visited [OF assms h0] by auto
  from best_scan_defined [OF this] obtain st' where
    "best_scan h (child_nodes (h ! 0)) (- 1000000000, - 1, None) = Inr st'" by blast
  then show ?thesis by (cases st') (simp add: get_best_action_def)
qed

lemma partition_new: "distinct L \<Longrightarrow> partition_ok L (new_MCTSNode p pa L)"
  by (simp add: partition_ok_def new_MCTSNode_def)

lemma update_fresh_keys:
  "a \<notin> set (map fst al) \<Longrightarrow> map fst (AList.update a v al) = map fst al @ [a]"
  by (simp add: update_keys)

lemma update_fresh_length:
  "a \<notin> set (map fst al) \<Longrightarrow> length (AList.update a v al) = Suc (length al)"
  by (induction al) auto

lemma partition_expanded:
  assumes "partition_ok L (h ! i)" and "i < length h" and "node < length h"
    and "untried_actions (h ! node) = a # rest"
  shows "partition_ok L (expanded h node a rest L' ! i)"
proof (cases "i = node")
  case False
  with assms(1,2) show ?thesis by (simp add: expanded_other)
next
  case True
  from assms(1,4) True have d: "distinct ((a # rest) @ map fst (child_nodes (h ! node)))"
    and s: "set (a # rest) \<union> set (map fst (child_nodes (h ! node))) = set L"
    and l: "length (a # rest) + length (child_nodes (h ! node)) = length L"
    by (simp_all add: partition_ok_def)
  from d have fresh: "a \<notin> set (map fst (child_nodes (h ! node)))" by auto
  have keys: "map fst (AList.update a (length h) (child_nodes (h ! node)))
      = map fst (child_nodes (h ! node)) @ [a]"
    using fresh by (rule update_fresh_keys)
  have len: "length (AList.update a (length h) (child_nodes (h ! node)))
      = Suc (length (child_nodes (h ! node)))"
    using fresh by (rule update_fresh_length)
  have "distinct (rest @ map fst (child_nodes (h ! node)) @ [a])" using d by auto
  moreover have "set rest \<union> set (map fst (child_nodes (h ! node)) @ [a]) = set L"
    using s by auto
  moreover have "length rest + Suc (length (child_nodes (h ! node))) = length L"
    using l by simp
  moreover have "untried_actions (expanded h node a rest L' ! node) = rest"
    and "child_nodes (expanded h node a rest L' ! node)
           = AList.update a (length h) (child_nodes (h ! node))"
    using assms(3) by (simp_all add: expanded_node)
  ultimately show ?thesis
    unfolding True partition_ok_def by (simp only: keys len)
qed

lemma partition_bumped: "partition_ok L (bumped h n won i) = partition_ok L (h ! i)"
  by (simp add: partition_ok_def bumped_fields)

lemma expand_leaf_partition:
  assumes "expand_leaf h node board state = Inr (h1, node1, state1)"
    and "node < length h" and "i < length h" and "partition_ok L (h ! i)"
    and "distinct (legal_actions board state1)"
  shows "partition_ok L (h1 ! i)
     \<and> (node1 \<noteq> node \<longrightarrow> partition_ok (legal_actions board state1) (h1 ! node1))"
  using expand_leaf_cases [OF assms(1,2)]
proof (elim disjE exE conjE)
  assume "h1 = h" "node1 = node"
  with assms(4) show ?thesis by simp
next
  fix a rest
  assume u: "untried_actions (h ! node) = a # rest"
    and h1: "h1 = expanded h node a rest (legal_actions board (next_state board state a))"
    and n1: "node1 = length h" and s1: "state1 = next_state board state a"
  have "partition_ok L (h1 ! i)"
    unfolding h1 using assms(4,3,2) u by (rule partition_expanded)
  moreover have "partition_ok (legal_actions board state1) (h1 ! node1)"
    unfolding h1 n1 s1 [symmetric] using assms(5) by (simp add: expanded_new partition_new)
  ultimately show ?thesis by simp
qed

lemma backpropagate_partition:
  assumes "backpropagate h node won = Some h'" and "tree_shape h" and "node < length h"
    and "i < length h"
  shows "partition_ok L (h' ! i) = partition_ok L (h ! i)"
proof -
  from backpropagate_total [OF assms(2,3), of won] assms(1,4)
  have "h' ! i = bumped h node won i" by simp
  then show ?thesis by (simp add: partition_bumped)
qed

lemma iteration_partitioned:
  assumes "think_iteration ro board s0 bid 0 h r = Some (Inr (h', r'))"
    and "tree_shape h" and "children_ok h" and "partitioned board h"
    and "\<forall>s. distinct (legal_actions board s)"
  shows "partitioned board h'"
proof -
  from assms(2) have h0: "0 < length h" by (simp add: tree_shape_def)
  from think_iteration_effect [OF assms(1-3) h0] obtain h1 node1 won where
    g: "grown board h h1 node1" and len: "length h' = length h1"
    and post: "\<forall>i<length h1. h' ! i = bumped h1 node1 won i"
    by blast
  have mid: "\<exists>s. partition_ok (legal_actions board s) (h1 ! i)" if i: "i < length h1" for i
    using g unfolding grown_def
  proof (elim disjE exE conjE)
    assume "h1 = h"
    with assms(4) i show ?thesis by (simp add: partitioned_def)
  next
    fix node a rest s
    assume node: "node < length h" and u: "untried_actions (h ! node) = a # rest"
      and h1: "h1 = expanded h node a rest (legal_actions board s)"
    show ?thesis
    proof (cases "i < length h")
      case True
      with assms(4) obtain s' where "partition_ok (legal_actions board s') (h ! i)"
        unfolding partitioned_def by blast
      from partition_expanded [OF this True node u] show ?thesis unfolding h1 by blast
    next
      case False
      with i have "i = length h" by (simp add: h1 expanded_length)
      with assms(5) have "partition_ok (legal_actions board s) (h1 ! i)"
        by (simp add: h1 expanded_new partition_new)
      then show ?thesis by blast
    qed
  qed
  show ?thesis
    unfolding partitioned_def
  proof (intro allI impI)
    fix i assume "i < length h'"
    with len have i1: "i < length h1" by simp
    from mid [OF i1] post i1 show "\<exists>s. partition_ok (legal_actions board s) (h' ! i)"
      by (simp add: partition_bumped)
  qed
qed

lemma think_loop_partitioned:
  assumes "think_loop ro board s0 bid 0 n h r = Some (Inr (h', r'))"
    and "tree_shape h" and "children_ok h" and "partitioned board h"
    and "\<forall>s. distinct (legal_actions board s)"
  shows "partitioned board h'"
proof -
  have "tree_shape h' \<and> children_ok h' \<and> partitioned board h'"
  proof (rule think_loop_indexed
      [where I = "\<lambda>k g. tree_shape g \<and> children_ok g \<and> partitioned board g" and k = 0,
       OF _ assms(1)])
    fix k g r g' r'
    assume inv: "tree_shape g \<and> children_ok g \<and> partitioned board g"
      and it: "think_iteration ro board s0 bid 0 g r = Some (Inr (g', r'))"
    from inv have 1: "tree_shape g" and 2: "children_ok g" and 3: "partitioned board g"
      by simp_all
    from iteration_root_visits [OF it 1 2] iteration_partitioned [OF it 1 2 3 assms(5)]
    show "tree_shape g' \<and> children_ok g' \<and> partitioned board g'" by simp
  next
    from assms(2-4) show "tree_shape h \<and> children_ok h \<and> partitioned board h" by simp
  qed
  then show ?thesis by simp
qed

lemma expand_leaf_moves_one:
  assumes "expand_leaf h node board state = Inr (h1, node1, state1)"
    and "node < length h" and "partition_ok L (h ! node)" and "node1 \<noteq> node"
  shows "\<exists>a rest. untried_actions (h ! node) = a # rest \<and> untried_actions (h1 ! node) = rest
           \<and> map fst (child_nodes (h1 ! node)) = map fst (child_nodes (h ! node)) @ [a]"
proof -
  from expand_leaf_cases [OF assms(1,2)] assms(4) obtain a rest where
    u: "untried_actions (h ! node) = a # rest"
    and h1: "h1 = expanded h node a rest (legal_actions board (next_state board state a))"
    by auto
  from assms(3) u have "a \<notin> set (map fst (child_nodes (h ! node)))"
    by (auto simp add: partition_ok_def)
  then have "map fst (AList.update a (length h) (child_nodes (h ! node)))
      = map fst (child_nodes (h ! node)) @ [a]"
    by (rule update_fresh_keys)
  with u assms(2) show ?thesis by (simp add: h1 expanded_node)
qed

section \<open>Runs of the search on the fixtures\<close>

lemmas iteration_simps = think_iteration_def traverse_nodes_def traverse_loop.simps
  expand_leaf_def rollout_def rollout_loop.simps is_win_def backpropagate.simps choice_def
  always_first_def new_MCTSNode_def Let_def

lemma toy_iteration_1:
  "think_iteration (rollout always_first toy_board) toy_board 0 1 0 toy_root 0
     = Some (Inr (toy_store_1, 1))"
  by (simp add: iteration_simps toy_board_def toy_root_def toy_store_1_def)

lemma toy_iteration_2:
  "think_iteration (rollout always_first toy_board) toy_board 0 1 0 toy_store_1 1
     = Some (Inr (toy_store_2, 2))"
  by (simp add: iteration_simps toy_board_def toy_store_1_def toy_store_2_def)

lemma toy_run_2:
  "think_loop (rollout always_first toy_board) toy_board 0 1 0 2 toy_root 0
     = Some (Inr (toy_store_2, 2))"
  by (simp only: numeral_2_eq_2 think_loop.simps toy_iteration_1 toy_iteration_2
      option.case sum.case prod.case)

lemma toy_ucb: "ucb toy_store_2 1 False = Inr (2 * sqrt (ln 2 / ln 2.71828))"
  "ucb toy_store_2 2 False = Inr (2 * sqrt (ln 2 / ln 2.71828))"
  using ucb_value [of toy_store_2 1 0 False] ucb_value [of toy_store_2 2 0 False]
  by (simp_all add: toy_store_2_def explore_faction_def)

lemma toy_scan:
  "uct_scan toy_store_2 False (child_nodes (toy_store_2 ! 0)) (- 1000000000, None, None)
     = Inr (2 * sqrt (ln 2 / ln 2.71828), Some 1, Some 0)"
proof -
  have c: "child_nodes (toy_store_2 ! 0) = [(0, 1), (1, 2)]" by (simp add: toy_store_2_def)
  have "(0::real) \<le> 2 * sqrt (ln 2 / ln 2.71828)" by simp
  then have "- 1000000000 < 2 * sqrt (ln 2 / ln (2.71828::real))" by linarith
  then show ?thesis
    unfolding c by (simp only: uct_scan.simps toy_ucb sum.case if_True if_False less_irrefl)
qed

lemma toy_traverse_3: "traverse_nodes toy_store_2 0 toy_board 0 1 = Some (Inr (1, 1))"
proof -
  have "untried_actions (toy_store_2 ! 0) = []" "\<not> is_ended toy_board 0"
    "untried_actions (toy_store_2 ! 1) \<noteq> []" "next_state toy_board 0 0 = 1"
    by (simp_all add: toy_store_2_def toy_board_def)
  then show ?thesis
    unfolding traverse_nodes_def
    by (subst traverse_loop.simps, simp add: toy_scan, subst traverse_loop.simps, simp)
qed

lemma toy_iteration_3:
  "think_iteration (rollout always_first toy_board) toy_board 0 1 0 toy_store_2 2
     = Some (Inr (toy_store_3, 2))"
  unfolding think_iteration_def toy_traverse_3
  by (simp add: expand_leaf_def rollout_def rollout_loop.simps is_win_def backpropagate.simps
      choice_def toy_board_def always_first_def new_MCTSNode_def Let_def
      toy_store_2_def toy_store_3_def)

lemma toy_run_3:
  "think_loop (rollout always_first toy_board) toy_board 0 1 0 3 toy_root 0
     = Some (Inr (toy_store_3, 2))"
  by (simp only: numeral_3_eq_3 think_loop.simps toy_iteration_1 toy_iteration_2
      toy_iteration_3 option.case sum.case prod.case)

lemma dup_iteration_1:
  "think_iteration (rollout always_first dup_board) dup_board 0 1 0
     [new_MCTSNode None None (legal_actions dup_board 0)] 0 = Some (Inr (dup_store_1, 0))"
  by (simp add: iteration_simps dup_board_def dup_store_1_def)

lemma dup_iteration_2:
  "think_iteration (rollout always_first dup_board) dup_board 0 1 0 dup_store_1 0
     = Some (Inr (dup_store_2, 0))"
  by (simp add: iteration_simps dup_board_def dup_store_1_def dup_store_2_def)

lemma dup_run_1:
  "think_loop (rollout always_first dup_board) dup_board 0 1 0 1
     [new_MCTSNode None None (legal_actions dup_board 0)] 0 = Some (Inr (dup_store_1, 0))"
  by (simp only: One_nat_def think_loop.simps dup_iteration_1 [unfolded One_nat_def]
      option.case sum.case prod.case)

lemma dup_run_2:
  "think_loop (rollout always_first dup_board) dup_board 0 1 0 2
     [new_MCTSNode None None (legal_actions dup_board 0)] 0 = Some (Inr (dup_store_2, 0))"
  by (simp only: numeral_2_eq_2 think_loop.simps dup_iteration_1 dup_iteration_2
      option.case sum.case prod.case)

lemma rollout_ended:
  "is_ended board state \<Longrightarrow> rollout rand board state r = Some (Inr (state, r))"
  by (simp add: rollout_def rollout_loop.simps)

lemma rollout_modified_ended:
  "is_ended board state \<Longrightarrow> rollout_modified rand board state bid r = Some (Inr (state, r))"
  by (simp add: rollout_modified_def rollout_modified_loop.simps)

lemma ended_root_iteration:
  assumes "is_ended board s0" and "parent nd = None" and "is_win board s0 bid = Inr w"
    and "ro s0 r = Some (Inr (s0, r))"
  shows "think_iteration ro board s0 bid 0 [nd] r
           = Some (Inr ([nd\<lparr>visits := visits nd + 1\<rparr>], r))"
  using assms
  by (simp add: think_iteration_def traverse_nodes_def traverse_loop.simps expand_leaf_def
      backpropagate.simps)

lemma ended_root_loop:
  assumes "is_ended board s0" and "parent nd = None" and "is_win board s0 bid = Inr w"
    and "\<And>r. ro s0 r = Some (Inr (s0, r))"
  shows "think_loop ro board s0 bid 0 n [nd] r = Some (Inr ([nd\<lparr>visits := visits nd + n\<rparr>], r))"
  using assms(2)
proof (induction n arbitrary: nd)
  case 0
  then show ?case by simp
next
  case (Suc n)
  from ended_root_iteration [where ro = ro and r = r, OF assms(1) Suc.prems assms(3) assms(4)]
  have it: "think_iteration ro board s0 bid 0 [nd] r
      = Some (Inr ([nd\<lparr>visits := visits nd + 1\<rparr>], r))" .
  have "parent (nd\<lparr>visits := visits nd + 1\<rparr>) = None" using Suc.prems by simp
  from Suc.IH [OF this] it show ?case by simp
qed

lemma toy_ended_think:
  "think always_first toy_board 3 0
     = Some (Inr (None, [new_MCTSNode None None [] \<lparr>visits := num_nodes\<rparr>]))"
proof -
  have e: "is_ended toy_board 3" by (simp add: toy_board_def)
  have w: "is_win toy_board 3 (current_player toy_board 3) = Inr False"
    by (simp add: is_win_def toy_board_def)
  have p: "parent (new_MCTSNode None None (legal_actions toy_board 3)) = None"
    by (simp add: new_MCTSNode_def)
  have l: "legal_actions toy_board 3 = []" by (simp add: toy_board_def)
  from ended_root_loop [where ro = "rollout always_first toy_board" and n = num_nodes and r = 0,
      OF e p w rollout_ended [OF e]]
  show ?thesis
    by (simp add: think_def think_with_def l get_best_action_def new_MCTSNode_def)
qed

lemma toy_ended_think_modified:
  "think_modified always_first toy_board 3 0
     = Some (Inr (None, [new_MCTSNode None None [] \<lparr>visits := num_nodes\<rparr>]))"
proof -
  have e: "is_ended toy_board 3" by (simp add: toy_board_def)
  have w: "is_win toy_board 3 (current_player toy_board 3) = Inr False"
    by (simp add: is_win_def toy_board_def)
  have p: "parent (new_MCTSNode None None (legal_actions toy_board 3)) = None"
    by (simp add: new_MCTSNode_def)
  have l: "legal_actions toy_board 3 = []" by (simp add: toy_board_def)
  from ended_root_loop
    [where ro = "\<lambda>state. rollout_modified always_first toy_board state (current_player toy_board 3)"
       and n = num_nodes and r = 0,
      OF e p w rollout_modified_ended [OF e]]
  show ?thesis
    by (simp add: think_modified_def think_with_def l get_best_action_def new_MCTSNode_def)
qed

lemma think_with_root_visits:
  assumes "think_with ro board s0 r = Some (Inr (best, hf))"
  shows "visits (hf ! 0) = num_nodes"
proof -
  from assms obtain r1 where
    "think_loop ro board s0 (current_player board s0) 0 num_nodes
       [new_MCTSNode None None (legal_actions board s0)] r = Some (Inr (hf, r1))"
    unfolding think_with_def
    by (auto simp add: Let_def split: option.splits sum.splits prod.splits)
  from think_loop_root_visits [OF this root_store_shape]
  show ?thesis by (simp add: new_MCTSNode_def)
qed

lemma toy_store_2_shape: "tree_shape toy_store_2 \<and> children_ok toy_store_2"
  using think_loop_root_visits [OF toy_run_2 [unfolded toy_root_def] root_store_shape] by simp

section \<open>Properties of the driver\<close>

text \<open>
  The theorems of this section hold for any rollout \<open>ro\<close>, so for \<^verbatim>\<open>think\<close> of both
  source files.

  Claim C4.  When the loop of \<^verbatim>\<open>think\<close> completes \<open>n\<close> iterations from the fresh root,
  the root's \<^verbatim>\<open>visits\<close> equals \<open>n\<close>; when \<^verbatim>\<open>think\<close> (of either file) returns,
  it equals \<^verbatim>\<open>num_nodes\<close>.  Every completed iteration adds exactly one to the root's visits.
  On a store of the shape \<^verbatim>\<open>think\<close> builds, \<^verbatim>\<open>backpropagate\<close> returns, reaches the
  root, and adds one visit to each node on the path from its start node to the root and
  none to any other node.
\<close>

theorem think_root_visits:
  "(think_loop ro board s0 bid 0 n [new_MCTSNode None None L] r = Some (Inr (h, r'))
      \<longrightarrow> visits (h ! 0) = n)
   \<and> (think rand board s0 r0 = Some (Inr (best, hf)) \<longrightarrow> visits (hf ! 0) = num_nodes)
   \<and> (think_modified rand board s0 r0 = Some (Inr (best, hf)) \<longrightarrow> visits (hf ! 0) = num_nodes)
   \<and> (tree_shape g \<longrightarrow> children_ok g \<longrightarrow>
        think_iteration ro board s0 bid 0 g r = Some (Inr (g', r'')) \<longrightarrow>
          tree_shape g' \<and> children_ok g' \<and> visits (g' ! 0) = visits (g ! 0) + 1)
   \<and> (tree_shape g \<longrightarrow> node < length g \<longrightarrow>
        (\<exists>g1. backpropagate g node won = Some g1 \<and> on_path g node 0
           \<and> (\<forall>i<length g.
                 visits (g1 ! i) = visits (g ! i) + (if on_path g node i then 1 else 0))))"
proof -
  have 1: "visits (h ! 0) = n"
    if "think_loop ro board s0 bid 0 n [new_MCTSNode None None L] r = Some (Inr (h, r'))"
    using think_loop_root_visits [OF that root_store_shape] by (simp add: new_MCTSNode_def)
  have 2: "visits (hf ! 0) = num_nodes" if "think rand board s0 r0 = Some (Inr (best, hf))"
    using that unfolding think_def by (rule think_with_root_visits)
  have two: "visits (hf ! 0) = num_nodes"
    if "think_modified rand board s0 r0 = Some (Inr (best, hf))"
    using that unfolding think_modified_def by (rule think_with_root_visits)
  have 3: "tree_shape g' \<and> children_ok g' \<and> visits (g' ! 0) = visits (g ! 0) + 1"
    if "tree_shape g" "children_ok g"
      and "think_iteration ro board s0 bid 0 g r = Some (Inr (g', r''))"
    using iteration_root_visits [OF that(3,1,2)] by simp
  have 4: "\<exists>g1. backpropagate g node won = Some g1 \<and> on_path g node 0
      \<and> (\<forall>i<length g. visits (g1 ! i) = visits (g ! i) + (if on_path g node i then 1 else 0))"
    if g: "tree_shape g" "node < length g"
  proof -
    from backpropagate_total [OF g, of won] obtain g1 where
      "backpropagate g node won = Some g1" and "\<forall>i<length g. g1 ! i = bumped g node won i"
      by blast
    moreover have "on_path g node 0" using g by (rule on_path_root)
    ultimately show ?thesis by (simp add: bumped_visits)
  qed
  from 1 2 two 3 4 show ?thesis by blast
qed

theorem think_root_visits_witness:
  "think_loop (rollout always_first toy_board) toy_board 0 1 0 2
       [new_MCTSNode None None (legal_actions toy_board 0)] 0 = Some (Inr (toy_store_2, 2))
   \<and> visits (toy_store_2 ! 0) = 2
   \<and> think always_first toy_board 3 0
       = Some (Inr (None, [new_MCTSNode None None [] \<lparr>visits := num_nodes\<rparr>]))
   \<and> think_modified always_first toy_board 3 0
       = Some (Inr (None, [new_MCTSNode None None [] \<lparr>visits := num_nodes\<rparr>]))
   \<and> visits (([new_MCTSNode None None [] \<lparr>visits := num_nodes\<rparr>] :: nat store) ! 0) = num_nodes
   \<and> tree_shape toy_store_2 \<and> children_ok toy_store_2
   \<and> think_iteration (rollout always_first toy_board) toy_board 0 1 0 toy_store_2 2
       = Some (Inr (toy_store_3, 2))
   \<and> visits (toy_store_3 ! 0) = visits (toy_store_2 ! 0) + 1
   \<and> (\<exists>g1. backpropagate toy_store_2 2 False = Some g1 \<and> on_path toy_store_2 2 0
         \<and> visits (g1 ! 0) = 3 \<and> visits (g1 ! 1) = 1 \<and> visits (g1 ! 2) = 2)"
proof -
  note run = toy_run_2 [unfolded toy_root_def]
  have a: "visits (toy_store_2 ! 0) = 2"
    using think_root_visits [THEN conjunct1, THEN mp, OF run] .
  have b: "visits (([new_MCTSNode None None [] \<lparr>visits := num_nodes\<rparr>] :: nat store) ! 0) = num_nodes"
    using think_root_visits [THEN conjunct2, THEN conjunct1, THEN mp, OF toy_ended_think] .
  have b': "visits (([new_MCTSNode None None [] \<lparr>visits := num_nodes\<rparr>] :: nat store) ! 0) = num_nodes"
    using think_root_visits [THEN conjunct2, THEN conjunct2, THEN conjunct1, THEN mp,
        OF toy_ended_think_modified] .
  note shape = toy_store_2_shape [THEN conjunct1] and kids = toy_store_2_shape [THEN conjunct2]
  have c: "visits (toy_store_3 ! 0) = visits (toy_store_2 ! 0) + 1"
    using think_root_visits [THEN conjunct2, THEN conjunct2, THEN conjunct2, THEN conjunct1,
        THEN mp, THEN mp, THEN mp, OF shape kids toy_iteration_3]
    by simp
  have len: "2 < length toy_store_2" by (simp add: toy_store_2_def)
  from think_root_visits [THEN conjunct2, THEN conjunct2, THEN conjunct2, THEN conjunct2,
      THEN mp, THEN mp, OF shape len, of False]
  obtain g1 where g1: "backpropagate toy_store_2 2 False = Some g1" "on_path toy_store_2 2 0"
    by blast
  have d: "visits (g1 ! 0) = 3 \<and> visits (g1 ! 1) = 1 \<and> visits (g1 ! 2) = 2"
    using g1(1) by (auto simp add: backpropagate.simps toy_store_2_def)
  from run a toy_ended_think toy_ended_think_modified b toy_store_2_shape toy_iteration_3 c g1 d
  show ?thesis by simp
qed

text \<open>
  Claim C5.  After any number of completed iterations of the loop of \<^verbatim>\<open>think\<close>, every
  node of the tree (so every non-root node) has \<open>wins \<le> visits\<close>.  Both counters are zero
  at node creation, and a backpropagation pass adds exactly 1 to the visits of each node
  on its path and 0 or 1 to its wins (nothing to the wins of the root), leaving the other
  nodes as they are.
\<close>

theorem wins_at_most_visits:
  "(think_loop ro board s0 bid 0 n [new_MCTSNode None None L] r = Some (Inr (h, r'))
      \<longrightarrow> (\<forall>i<length h. wins (h ! i) \<le> visits (h ! i)))
   \<and> wins (new_MCTSNode p pa L) = 0 \<and> visits (new_MCTSNode p pa L) = 0
   \<and> (tree_shape g \<longrightarrow> node < length g \<longrightarrow>
        (\<exists>g1. backpropagate g node won = Some g1
           \<and> (\<forall>i<length g. on_path g node i \<longrightarrow>
                 visits (g1 ! i) = visits (g ! i) + 1
                 \<and> wins (g1 ! i) = wins (g ! i) + (if parent (g ! i) \<noteq> None \<and> won then 1 else 0))
           \<and> (\<forall>i<length g. \<not> on_path g node i \<longrightarrow> g1 ! i = g ! i)))"
proof -
  have 1: "\<forall>i<length h. wins (h ! i) \<le> visits (h ! i)"
    if "think_loop ro board s0 bid 0 n [new_MCTSNode None None L] r = Some (Inr (h, r'))"
    using think_loop_inv [OF that root_store_shape root_store_counters]
    by (simp add: wins_inv_def)
  have 2: "wins (new_MCTSNode p pa L) = 0 \<and> visits (new_MCTSNode p pa L) = 0"
    by (simp add: new_MCTSNode_def)
  have 3: "\<exists>g1. backpropagate g node won = Some g1
           \<and> (\<forall>i<length g. on_path g node i \<longrightarrow>
                 visits (g1 ! i) = visits (g ! i) + 1
                 \<and> wins (g1 ! i) = wins (g ! i) + (if parent (g ! i) \<noteq> None \<and> won then 1 else 0))
           \<and> (\<forall>i<length g. \<not> on_path g node i \<longrightarrow> g1 ! i = g ! i)"
    if g: "tree_shape g" "node < length g"
  proof -
    from backpropagate_total [OF g, of won] obtain g1 where
      "backpropagate g node won = Some g1" and "\<forall>i<length g. g1 ! i = bumped g node won i"
      by blast
    then show ?thesis by (simp add: bumped_def)
  qed
  from 1 2 3 show ?thesis by blast
qed

theorem wins_at_most_visits_witness:
  "think_loop (rollout always_first toy_board) toy_board 0 1 0 3
       [new_MCTSNode None None (legal_actions toy_board 0)] 0 = Some (Inr (toy_store_3, 2))
   \<and> length toy_store_3 = 4
   \<and> wins (toy_store_3 ! 1) \<le> visits (toy_store_3 ! 1)
   \<and> wins (toy_store_3 ! 2) \<le> visits (toy_store_3 ! 2)
   \<and> wins (toy_store_3 ! 3) \<le> visits (toy_store_3 ! 3)
   \<and> tree_shape toy_store_2
   \<and> (\<exists>g1. backpropagate toy_store_2 1 True = Some g1
         \<and> wins (g1 ! 1) = 1 \<and> visits (g1 ! 1) = 2 \<and> wins (g1 ! 0) = 0 \<and> visits (g1 ! 0) = 3
         \<and> g1 ! 2 = toy_store_2 ! 2)"
proof -
  note run = toy_run_3 [unfolded toy_root_def]
  have all: "\<forall>i<length toy_store_3. wins (toy_store_3 ! i) \<le> visits (toy_store_3 ! i)"
    using wins_at_most_visits [THEN conjunct1, THEN mp, OF run] .
  have len: "length toy_store_3 = 4" by (simp add: toy_store_3_def)
  from all len have a: "wins (toy_store_3 ! 1) \<le> visits (toy_store_3 ! 1)"
    "wins (toy_store_3 ! 2) \<le> visits (toy_store_3 ! 2)"
    "wins (toy_store_3 ! 3) \<le> visits (toy_store_3 ! 3)"
    by simp_all
  note shape = toy_store_2_shape [THEN conjunct1]
  have l2: "1 < length toy_store_2" by (simp add: toy_store_2_def)
  from wins_at_most_visits [THEN conjunct2, THEN conjunct2, THEN conjunct2, THEN mp, THEN mp,
      OF shape l2, of True]
  obtain g1 where g1: "backpropagate toy_store_2 1 True = Some g1" by blast
  have d: "wins (g1 ! 1) = 1 \<and> visits (g1 ! 1) = 2 \<and> wins (g1 ! 0) = 0 \<and> visits (g1 ! 0) = 3
      \<and> g1 ! 2 = toy_store_2 ! 2"
    using g1 by (auto simp add: backpropagate.simps toy_store_2_def)
  from run len a shape g1 d show ?thesis by simp
qed

text \<open>
  Claim C8.  After any number of completed iterations of the loop of \<^verbatim>\<open>think\<close>, every
  node but the root has at least one visit, and for every child entry of every node both
  the child and the parent have at least one visit, so that \<^verbatim>\<open>ucb\<close> of the child
  returns a number.  Hence the selection of the next iteration never raises
  \<^verbatim>\<open>ZeroDivisionError\<close> or \<^verbatim>\<open>ValueError\<close> (no division by zero, no logarithm of
  zero), and \<^verbatim>\<open>get_best_action\<close> after the loop returns without raising.  The
  convention that the legal actions are empty exactly in terminal states is not needed.
\<close>

theorem no_division_by_zero:
  assumes "think_loop ro board s0 bid 0 n [new_MCTSNode None None L] r = Some (Inr (h, r'))"
  shows "(\<forall>i<length h. 0 < i \<longrightarrow> 1 \<le> visits (h ! i))
    \<and> (\<forall>i<length h. \<forall>(a, c) \<in> set (child_nodes (h ! i)).
          c < length h \<and> parent (h ! c) = Some i \<and> 1 \<le> visits (h ! c) \<and> 1 \<le> visits (h ! i)
          \<and> (\<forall>opp. \<exists>v. ucb h c opp = Inr v))
    \<and> (\<forall>y. traverse_nodes h 0 board s0 bid = Some y \<longrightarrow>
          y \<noteq> Inl ZeroDivisionError \<and> y \<noteq> Inl ValueError)
    \<and> (\<exists>m. get_best_action h 0 = Inr m)"
proof -
  from think_loop_inv [OF assms root_store_shape root_store_counters]
  have sh: "tree_shape h" and ok: "children_ok h" and vi: "visited_inv h" by simp_all
  from sh have h0: "0 < length h" by (simp add: tree_shape_def)
  have 1: "\<forall>i<length h. 0 < i \<longrightarrow> 1 \<le> visits (h ! i)"
    using vi by (simp add: visited_inv_def)
  have 2: "\<forall>i<length h. \<forall>(a, c) \<in> set (child_nodes (h ! i)).
          c < length h \<and> parent (h ! c) = Some i \<and> 1 \<le> visits (h ! c) \<and> 1 \<le> visits (h ! i)
          \<and> (\<forall>opp. \<exists>v. ucb h c opp = Inr v)"
  proof (intro allI impI ballI)
    fix i x assume i: "i < length h" and x: "x \<in> set (child_nodes (h ! i))"
    obtain a c where ac: "x = (a, c)" by (cases x)
    from child_visited [OF sh ok vi i] x ac
    have c: "c < length h" "parent (h ! c) = Some i" "1 \<le> visits (h ! c)" "1 \<le> visits (h ! i)"
      by simp_all
    from ucb_value [OF c(2,4,3)] have "\<forall>opp. \<exists>v. ucb h c opp = Inr v" by blast
    with c ac show "case x of (a, c) \<Rightarrow>
        c < length h \<and> parent (h ! c) = Some i \<and> 1 \<le> visits (h ! c) \<and> 1 \<le> visits (h ! i)
        \<and> (\<forall>opp. \<exists>v. ucb h c opp = Inr v)"
      by simp
  qed
  have 3: "\<forall>y. traverse_nodes h 0 board s0 bid = Some y \<longrightarrow>
          y \<noteq> Inl ZeroDivisionError \<and> y \<noteq> Inl ValueError"
  proof (intro allI impI)
    fix y assume "traverse_nodes h 0 board s0 bid = Some y"
    from traverse_loop_safe [OF this [unfolded traverse_nodes_def]] sh ok vi h0
    show "y \<noteq> Inl ZeroDivisionError \<and> y \<noteq> Inl ValueError" by simp
  qed
  from get_best_action_defined [OF sh ok vi] 1 2 3 show ?thesis by blast
qed

theorem no_division_by_zero_witness:
  "think_loop (rollout always_first toy_board) toy_board 0 1 0 2
       [new_MCTSNode None None (legal_actions toy_board 0)] 0 = Some (Inr (toy_store_2, 2))
   \<and> child_nodes (toy_store_2 ! 0) = [(0, 1), (1, 2)]
   \<and> visits (toy_store_2 ! 0) = 2 \<and> visits (toy_store_2 ! 1) = 1 \<and> visits (toy_store_2 ! 2) = 1
   \<and> traverse_nodes toy_store_2 0 toy_board 0 1 = Some (Inr (1, 1))
   \<and> (\<exists>m. get_best_action toy_store_2 0 = Inr m)"
proof -
  note run = toy_run_2 [unfolded toy_root_def]
  from no_division_by_zero [OF run] have "\<exists>m. get_best_action toy_store_2 0 = Inr m" by blast
  moreover have "child_nodes (toy_store_2 ! 0) = [(0, 1), (1, 2)]"
    "visits (toy_store_2 ! 0) = 2" "visits (toy_store_2 ! 1) = 1" "visits (toy_store_2 ! 2) = 1"
    by (simp_all add: toy_store_2_def)
  ultimately show ?thesis using run toy_traverse_3 by simp
qed

text \<open>
  Claim C6, as stated, fails for a game model whose legal-action list repeats an action.
  The search on such a model from state 0, whose legal actions are \<open>[0, 0]\<close>: after one
  iteration the action 0 is both among the root's untried actions and among the keys of
  its children; after two iterations the root has no untried action and one child, one
  less than the two legal actions captured at its creation.
\<close>

theorem partition_duplicate_counterexample:
  "think_loop (rollout always_first dup_board) dup_board 0 1 0 2
       [new_MCTSNode None None (legal_actions dup_board 0)] 0 = Some (Inr (dup_store_2, 0))
   \<and> think_loop (rollout always_first dup_board) dup_board 0 1 0 1
       [new_MCTSNode None None (legal_actions dup_board 0)] 0 = Some (Inr (dup_store_1, 0))
   \<and> legal_actions dup_board 0 = [0, 0]
   \<and> 0 \<in> set (untried_actions (dup_store_1 ! 0)) \<inter> set (map fst (child_nodes (dup_store_1 ! 0)))
   \<and> length (untried_actions (dup_store_2 ! 0)) + length (child_nodes (dup_store_2 ! 0)) = 1
   \<and> length (legal_actions dup_board 0) = 2
   \<and> \<not> partition_ok (legal_actions dup_board 0) (dup_store_1 ! 0)
   \<and> \<not> partition_ok (legal_actions dup_board 0) (dup_store_2 ! 0)"
proof -
  have "legal_actions dup_board 0 = [0, 0]" by (simp add: dup_board_def)
  moreover have "0 \<in> set (untried_actions (dup_store_1 ! 0))
      \<inter> set (map fst (child_nodes (dup_store_1 ! 0)))"
    by (simp add: dup_store_1_def)
  moreover have "length (untried_actions (dup_store_2 ! 0)) + length (child_nodes (dup_store_2 ! 0)) = 1"
    by (simp add: dup_store_2_def)
  moreover have "\<not> partition_ok (legal_actions dup_board 0) (dup_store_1 ! 0)"
    by (simp add: partition_ok_def dup_store_1_def)
  moreover have "\<not> partition_ok (legal_actions dup_board 0) (dup_store_2 ! 0)"
    by (simp add: partition_ok_def dup_store_2_def dup_board_def)
  ultimately show ?thesis using dup_run_1 dup_run_2 by simp
qed

text \<open>
  Claim C6, amended.  Provided the legal-action lists of the game model are
  duplicate-free: a node is created with its untried actions and (no) children
  partitioning the legal-action list passed to its constructor; if the untried actions and
  the children's keys of a node partition a list \<open>L\<close>, they still do after any
  \<^verbatim>\<open>expand_leaf\<close> and after any \<^verbatim>\<open>backpropagate\<close>; an expanding \<^verbatim>\<open>expand_leaf\<close> moves
  exactly the front untried action of its node to the end of the keys of its children,
  and the node it creates partitions the legal actions of the state it returns; and after
  any number of completed iterations of \<^verbatim>\<open>think\<close> every node partitions the
  legal-action list of a state of the game.
\<close>

theorem partition_preserved:
  assumes "\<forall>s. distinct (legal_actions board s)"
  shows "partition_ok (legal_actions board s) (new_MCTSNode p pa (legal_actions board s))
    \<and> (node < length h \<longrightarrow> i < length h \<longrightarrow> partition_ok L (h ! i) \<longrightarrow>
         expand_leaf h node board state = Inr (h1, node1, state1) \<longrightarrow>
           partition_ok L (h1 ! i)
           \<and> (node1 \<noteq> node \<longrightarrow> partition_ok (legal_actions board state1) (h1 ! node1)))
    \<and> (node < length h \<longrightarrow> partition_ok L (h ! node) \<longrightarrow>
         expand_leaf h node board state = Inr (h1, node1, state1) \<longrightarrow> node1 \<noteq> node \<longrightarrow>
           (\<exists>a rest. untried_actions (h ! node) = a # rest \<and> untried_actions (h1 ! node) = rest
              \<and> map fst (child_nodes (h1 ! node)) = map fst (child_nodes (h ! node)) @ [a]))
    \<and> (tree_shape h \<longrightarrow> node < length h \<longrightarrow> i < length h \<longrightarrow>
         backpropagate h node won = Some h2 \<longrightarrow>
           partition_ok L (h2 ! i) = partition_ok L (h ! i))
    \<and> (think_loop ro board s0 bid 0 n [new_MCTSNode None None (legal_actions board s0)] r
          = Some (Inr (hn, r')) \<longrightarrow>
         (\<forall>j<length hn. \<exists>s. partition_ok (legal_actions board s) (hn ! j)))"
proof -
  have 1: "partition_ok (legal_actions board s) (new_MCTSNode p pa (legal_actions board s))"
    using assms by (simp add: partition_new)
  have 2: "partition_ok L (h1 ! i)
           \<and> (node1 \<noteq> node \<longrightarrow> partition_ok (legal_actions board state1) (h1 ! node1))"
    if "node < length h" "i < length h" "partition_ok L (h ! i)"
      "expand_leaf h node board state = Inr (h1, node1, state1)"
  proof -
    from assms have "distinct (legal_actions board state1)" by simp
    from expand_leaf_partition [OF that(4,1,2,3) this] show ?thesis .
  qed
  have 3: "\<exists>a rest. untried_actions (h ! node) = a # rest \<and> untried_actions (h1 ! node) = rest
              \<and> map fst (child_nodes (h1 ! node)) = map fst (child_nodes (h ! node)) @ [a]"
    if "node < length h" "partition_ok L (h ! node)"
      "expand_leaf h node board state = Inr (h1, node1, state1)" "node1 \<noteq> node"
    using expand_leaf_moves_one [OF that(3,1,2,4)] .
  have 4: "partition_ok L (h2 ! i) = partition_ok L (h ! i)"
    if "tree_shape h" "node < length h" "i < length h" "backpropagate h node won = Some h2"
    using backpropagate_partition [OF that(4,1,2,3)] .
  have 5: "\<forall>j<length hn. \<exists>s. partition_ok (legal_actions board s) (hn ! j)"
    if run: "think_loop ro board s0 bid 0 n [new_MCTSNode None None (legal_actions board s0)] r
          = Some (Inr (hn, r'))"
  proof -
    from assms have "partition_ok (legal_actions board s0)
        (new_MCTSNode None None (legal_actions board s0))"
      by (simp add: partition_new)
    then have "partitioned board [new_MCTSNode None None (legal_actions board s0)]"
      unfolding partitioned_def by auto
    from think_loop_partitioned [OF run root_store_shape this assms]
    show ?thesis by (simp add: partitioned_def)
  qed
  from 1 2 3 4 5 show ?thesis by blast
qed

lemma toy_distinct: "\<forall>s. distinct (legal_actions toy_board s)"
  by (simp add: toy_board_def)

theorem partition_preserved_witness:
  "(\<forall>s. distinct (legal_actions toy_board s))
   \<and> think_loop (rollout always_first toy_board) toy_board 0 1 0 3
       [new_MCTSNode None None (legal_actions toy_board 0)] 0 = Some (Inr (toy_store_3, 2))
   \<and> (\<exists>s. partition_ok (legal_actions toy_board s) (toy_store_3 ! 1))
   \<and> partition_ok [0, 1] (toy_store_2 ! 1)
   \<and> expand_leaf toy_store_2 1 toy_board 1 =
       Inr (toy_store_2 [1 := (toy_store_2 ! 1)\<lparr>untried_actions := [1], child_nodes := [(0, 3)]\<rparr>]
              @ [new_MCTSNode (Some 1) (Some 0) []], 3, 3)
   \<and> partition_ok [0, 1] ((toy_store_2 ! 1)\<lparr>untried_actions := [1], child_nodes := [(0, 3)]\<rparr>)
   \<and> partition_ok (legal_actions toy_board 3) (new_MCTSNode (Some 1) (Some 0) [])"
proof -
  note run = toy_run_3 [unfolded toy_root_def]
  note th = partition_preserved [OF toy_distinct]
  have len: "1 < length toy_store_3" by (simp add: toy_store_3_def)
  from th [THEN conjunct2, THEN conjunct2, THEN conjunct2, THEN conjunct2, THEN mp, OF run] len
  have a: "\<exists>s. partition_ok (legal_actions toy_board s) (toy_store_3 ! 1)" by blast
  have p2: "partition_ok [0, 1] (toy_store_2 ! 1)"
    by (simp add: partition_ok_def toy_store_2_def)
  have ex: "expand_leaf toy_store_2 1 toy_board 1 =
      Inr (toy_store_2 [1 := (toy_store_2 ! 1)\<lparr>untried_actions := [1], child_nodes := [(0, 3)]\<rparr>]
              @ [new_MCTSNode (Some 1) (Some 0) []], 3, 3)"
    by (simp add: expand_leaf_def toy_board_def toy_store_2_def new_MCTSNode_def Let_def)
  have l2: "1 < length toy_store_2" by (simp add: toy_store_2_def)
  from th [THEN conjunct2, THEN conjunct1, THEN mp, THEN mp, THEN mp, THEN mp, OF l2 l2 p2 ex]
  have b: "partition_ok [0, 1] ((toy_store_2 ! 1)\<lparr>untried_actions := [1], child_nodes := [(0, 3)]\<rparr>)
      \<and> partition_ok (legal_actions toy_board 3) (new_MCTSNode (Some 1) (Some 0) [])"
    by (simp add: toy_store_2_def nth_append)
  from toy_distinct run a p2 ex b show ?thesis by simp
qed

end
